theory Spec2Isabelle
  imports Main
begin

section \<open>Errors\<close>

text \<open>
  Every exception the page views can raise is a value. \<open>APIBadRequest\<close> is the
  view's own rejection (HTTP 400 with a detail message); the others are the Python and
  library exceptions that escape a view when a lookup or a codec call fails;
  \<open>InvalidRequest\<close> is the rejection of a helper that is not among the source files.
\<close>

datatype error =
    APIBadRequest string
  | AttributeError
  | DoesNotExist
  | KeyError
  | IndexError
  | FileNotFoundError
  | TypeError
  | RuntimeError
  | InvalidRequest

section \<open>The page-addressable payload (pikepdf)\<close>

text \<open>
  A PDF is the list of its pages; a page is its content (an opaque identifier) and its
  rotation in degrees. The codec calls the views use are modelled with the errors
  pikepdf raises: \<open>pages.p(n)\<close> and \<open>pages.remove(p=n)\<close> are 1-based and raise
  IndexError outside \<open>1..len\<close>; \<open>pages.insert(i, page)\<close> is 0-based, counts a negative
  index from the end, and raises IndexError when the index is still negative or beyond
  the end.
\<close>

record pdf_page =
  content :: nat
  rotation :: int

type_synonym pdf = "pdf_page list"

definition pages_p :: "pdf \<Rightarrow> int \<Rightarrow> error + pdf_page" where
  "pages_p pdf n =
     (if 1 \<le> n \<and> n \<le> int (length pdf) then Inr (pdf ! nat (n - 1)) else Inl IndexError)"

definition pages_remove :: "pdf \<Rightarrow> int \<Rightarrow> error + pdf" where
  "pages_remove pdf n =
     (if 1 \<le> n \<and> n \<le> int (length pdf)
      then Inr (take (nat (n - 1)) pdf @ drop (nat n) pdf)
      else Inl IndexError)"

definition pages_insert :: "pdf \<Rightarrow> int \<Rightarrow> pdf_page \<Rightarrow> error + pdf" where
  "pages_insert pdf i x =
     (let j = (if i < 0 then i + int (length pdf) else i)
      in if j < 0 \<or> int (length pdf) < j then Inl IndexError
         else Inr (take (nat j) pdf @ [x] @ drop (nat j) pdf))"

text \<open>
  \<open>page.rotate(angle, relative=True)\<close> hands the angle to QPDF's \<open>rotatePage\<close> as a
  C \<open>int\<close>: an angle outside the 32-bit range is refused at the call (TypeError). QPDF
  raises (RuntimeError in Python) when \<open>angle % 90\<close> is not 0; otherwise it reads the
  page's present \<open>/Rotate\<close> as an \<open>int\<close> (a value outside the range is replaced by the
  nearest bound), takes it as 0 when it is not a multiple of 90, adds it to the angle and
  stores \<open>(new_angle + 360) % 360\<close>. This is C arithmetic on \<open>int\<close>: a sum beyond
  32 bits wraps around, and \<open>%\<close> truncates toward zero, so that the stored value is
  negative for a negative sum below -360.
\<close>

definition INT_MIN :: int where
  "INT_MIN = - (2 ^ 31)"

definition INT_MAX :: int where
  "INT_MAX = 2 ^ 31 - 1"

definition c_int :: "int \<Rightarrow> int" where
  "c_int x = (x + 2 ^ 31) mod 2 ^ 32 - 2 ^ 31"

definition c_rem :: "int \<Rightarrow> int \<Rightarrow> int" where
  "c_rem a b = (if a < 0 then - ((- a) mod b) else a mod b)"

definition getIntValueAsInt :: "int \<Rightarrow> int" where
  "getIntValueAsInt v = (if v < INT_MIN then INT_MIN else if INT_MAX < v then INT_MAX else v)"

definition page_rotate :: "pdf_page \<Rightarrow> int \<Rightarrow> error + pdf_page" where
  "page_rotate p a =
     (if a < INT_MIN \<or> INT_MAX < a then Inl TypeError
      else if c_rem a 90 \<noteq> 0 then Inl RuntimeError
      else
        (let old_angle = getIntValueAsInt (rotation p);
             old_angle = (if c_rem old_angle 90 \<noteq> 0 then 0 else old_angle);
             new_angle = c_int (a + old_angle)
         in Inr (p\<lparr>rotation := c_rem (c_int (new_angle + 360)) 360\<rparr>)))"

section \<open>Persistence and storage\<close>

text \<open>
  The rows the views read and create, and the two stores they write: the payload of a
  version (the file at \<open>abs_path(version.document_path.url)\<close>, keyed here by the
  version) and the per-page rendering artifacts (the files under
  \<open>PagePath(document_path, page_num)\<close>, keyed by version and page number).
  Tables are lists in creation order; nothing is ever deleted from them.
\<close>

record page =
  page_pk :: nat
  page_version :: nat
  number :: int
  page_text :: string
  page_lang :: string

record document_version =
  version_pk :: nat
  version_document :: nat
  version_number :: int
  page_count :: int
  version_text :: string
  version_lang :: string

record document =
  document_pk :: nat
  title :: string
  document_lang :: string
  document_user :: nat
  parent :: nat
  ocr_status :: string

record folder =
  folder_pk :: nat
  folder_user :: nat

record state =
  folders :: "folder list"
  documents :: "document list"
  versions :: "document_version list"
  pages :: "page list"
  payloads :: "nat \<rightharpoonup> pdf"
  artifacts :: "nat \<times> int \<rightharpoonup> nat"

text \<open>A fresh primary key: one more than the largest key in use.\<close>

definition fresh :: "nat list \<Rightarrow> nat" where
  "fresh ids = Suc (foldr max ids 0)"

text \<open>
  Querysets. \<open>Page.objects.filter(pk__in=ids)\<close> and \<open>version.pages.all()\<close> list
  pages in ascending page number (the ordered listing of pages by number that the
  persistence layer provides); \<open>first\<close> is \<open>None\<close> on an empty queryset.
  \<open>document.versions.last()\<close> is the most recently created version of the document.
\<close>

definition pages_filter_pk :: "state \<Rightarrow> nat list \<Rightarrow> page list" where
  "pages_filter_pk s ids = sort_key number (filter (\<lambda>p. page_pk p \<in> set ids) (pages s))"

definition version_pages :: "state \<Rightarrow> nat \<Rightarrow> page list" where
  "version_pages s v = sort_key number (filter (\<lambda>p. page_version p = v) (pages s))"

definition first :: "'a list \<Rightarrow> 'a option" where
  "first xs = (case xs of [] \<Rightarrow> None | x # _ \<Rightarrow> Some x)"

definition get_version :: "state \<Rightarrow> nat \<Rightarrow> document_version option" where
  "get_version s pk = find (\<lambda>v. version_pk v = pk) (versions s)"

definition document_versions :: "state \<Rightarrow> nat \<Rightarrow> document_version list" where
  "document_versions s doc = filter (\<lambda>v. version_document v = doc) (versions s)"

definition last_version :: "state \<Rightarrow> nat \<Rightarrow> document_version option" where
  "last_version s doc =
     (case document_versions s doc of [] \<Rightarrow> None | v # vs \<Rightarrow> Some (last (v # vs)))"

definition get_document :: "state \<Rightarrow> nat \<Rightarrow> nat \<Rightarrow> document option" where
  "get_document s pk user =
     find (\<lambda>d. document_pk d = pk \<and> document_user d = user) (documents s)"

definition get_folder :: "state \<Rightarrow> nat \<Rightarrow> nat \<Rightarrow> folder option" where
  "get_folder s pk user = find (\<lambda>f. folder_pk f = pk \<and> folder_user f = user) (folders s)"

subsection \<open>Collaborators that are not among the source files\<close>

text \<open>
  Modelled from the spec: \<open>storage.copy_page\<close> (section 6, "copy_page(src:
  (document_path, page_number), dst: (document_path, page_number))", and section 4.4,
  "copy the old version's artifact at old_number into the new version's slot at
  new_number"). A source slot that holds nothing copies nothing: the tests delete pages
  of freshly uploaded documents, which have no artifacts yet, and succeed.
\<close>

definition copy_page :: "state \<Rightarrow> nat \<times> int \<Rightarrow> nat \<times> int \<Rightarrow> state" where
  "copy_page s src dst =
     (case artifacts s src of
        None \<Rightarrow> s
      | Some a \<Rightarrow> s\<lparr>artifacts := (artifacts s)(dst \<mapsto> a)\<rparr>)"

text \<open>
  Modelled from the spec: \<open>Page.is_archived\<close> (glossary, "Archived version: any
  non-current version"; section 9, "current = most recently created version").
\<close>

definition is_archived :: "state \<Rightarrow> page \<Rightarrow> bool" where
  "is_archived s p =
     (case get_version s (page_version p) of
        None \<Rightarrow> False
      | Some v \<Rightarrow>
          (case last_version s (version_document v) of
             None \<Rightarrow> False
           | Some l \<Rightarrow> version_pk l \<noteq> version_pk v))"

text \<open>
  Modelled from the spec: \<open>Document.version_bump\<close> (section 4.1, "bump(document,
  target_page_count): new current Version with target_page_count placeholder pages
  numbered 1..N; previous current version becomes archived atomically with this call";
  section 3, "version_bump never mutates the prior version's payload or pages"). Called
  without a page count (rotate) it keeps the count of the current version ("Bump(same
  count)"). The new version is the last one of its document, hence current.
\<close>

definition placeholder_pages :: "nat \<Rightarrow> nat \<Rightarrow> string \<Rightarrow> int \<Rightarrow> page list" where
  "placeholder_pages base v lang n =
     map (\<lambda>i. \<lparr>page_pk = base + nat (i - 1), page_version = v, number = i,
               page_text = [], page_lang = lang\<rparr>) [1..n]"

definition version_bump :: "state \<Rightarrow> nat \<Rightarrow> int option \<Rightarrow> document_version \<times> state" where
  "version_bump s doc page_count_arg =
     (let last_ver = last_version s doc;
          n = (case page_count_arg of
                 Some c \<Rightarrow> c
               | None \<Rightarrow> (case last_ver of None \<Rightarrow> 0 | Some l \<Rightarrow> page_count l));
          lang = (case last_ver of None \<Rightarrow> [] | Some l \<Rightarrow> version_lang l);
          new_version = \<lparr>version_pk = fresh (map version_pk (versions s)),
                          version_document = doc,
                          version_number =
                            (case last_ver of None \<Rightarrow> 1 | Some l \<Rightarrow> version_number l + 1),
                          page_count = n,
                          version_text = [],
                          version_lang = lang\<rparr>
      in (new_version,
          s\<lparr>versions := versions s @ [new_version],
            pages := pages s @ placeholder_pages (fresh (map page_pk (pages s)))
                                 (version_pk new_version) lang n\<rparr>))"

text \<open>
  Modelled from the spec: \<open>DocumentVersion.update_text_field\<close> (section 4.4, "for the
  ordered sequence of new positions ... concatenate per-page texts in new-position order
  with a single-space separator into the version's aggregate text field, and store each
  page's individual text alongside it"). The streams are paired with the version's pages
  in page order; a page beyond the last stream keeps its text.
\<close>

fun join_space :: "string list \<Rightarrow> string" where
  "join_space [] = []"
| "join_space [x] = x"
| "join_space (x # y # ys) = x @ '' '' @ join_space (y # ys)"

definition assign_text :: "(nat \<times> string) list \<Rightarrow> page \<Rightarrow> page" where
  "assign_text assigns p =
     (case map_of assigns (page_pk p) of None \<Rightarrow> p | Some t \<Rightarrow> p\<lparr>page_text := t\<rparr>)"

definition assign_version_text :: "nat \<Rightarrow> string \<Rightarrow> document_version \<Rightarrow> document_version" where
  "assign_version_text v t w = (if version_pk w = v then w\<lparr>version_text := t\<rparr> else w)"

definition update_text_field :: "state \<Rightarrow> nat \<Rightarrow> string list \<Rightarrow> state" where
  "update_text_field s v streams =
     (let assigns = zip (map page_pk (version_pages s v)) streams
      in s\<lparr>pages := map (assign_text assigns) (pages s),
           versions := map (assign_version_text v (join_space (map snd assigns)))
                         (versions s)\<rparr>)"

text \<open>
  Modelled from the spec: \<open>get_assigns_after_delete\<close> (section 4.2, "delete(total_pages,
  deleted_positions): survivors, taken in ascending original order, are renumbered
  consecutively from 1. Example: total=5, deleted={3} gives [(1,1),(2,2),(3,4),(4,5)]").
\<close>

definition survivors :: "int \<Rightarrow> int list \<Rightarrow> int list" where
  "survivors total_pages deleted_pages =
     filter (\<lambda>n. n \<notin> set deleted_pages) [1..total_pages]"

definition get_assigns_after_delete :: "int \<Rightarrow> int list \<Rightarrow> (int \<times> int) list" where
  "get_assigns_after_delete total_pages deleted_pages =
     zip [1..int (length (survivors total_pages deleted_pages))]
       (survivors total_pages deleted_pages)"

text \<open>
  Modelled from the spec: \<open>annotate_page_data\<close>, which turns the rotate request's
  items (page id, angle) into the editor's input (section 4.3, "rotate(payload,
  {position: angle})"; section 6, "rotate(list of {page_id, angle})"): every selected
  page, in page order, with the angle of each request item that names it.
\<close>

record rotate_item =
  rotate_id :: nat
  angle :: int

definition annotate_page_data :: "page list \<Rightarrow> rotate_item list \<Rightarrow> (int \<times> int) list" where
  "annotate_page_data ps pages_data =
     concat (map (\<lambda>p. map (\<lambda>item. (number p, angle item))
                          (filter (\<lambda>item. rotate_id item = page_pk p) pages_data)) ps)"

text \<open>
  Modelled from the spec: \<open>Document.objects.create_document\<close> (section 4.5, "creates
  ... new document(s) in the destination folder"): a new document row under the folder.
  It has no version until \<open>version_bump_from_pages\<close> gives it one.
\<close>

definition create_document ::
  "state \<Rightarrow> string \<Rightarrow> string \<Rightarrow> nat \<Rightarrow> nat \<Rightarrow> string \<Rightarrow> document \<times> state" where
  "create_document s ttl lang user folder_id status =
     (let d = \<lparr>document_pk = fresh (map document_pk (documents s)), title = ttl,
                document_lang = lang, document_user = user, parent = folder_id,
                ocr_status = status\<rparr>
      in (d, s\<lparr>documents := documents s @ [d]\<rparr>))"

text \<open>
  Modelled from the spec: \<open>Document.version_bump_from_pages\<close> (section 4.1,
  "bump_from_pages(document_or_new_document, pages): new Version whose pages are
  seeded, in the given order, from an existing page set (used for document creation and
  extraction)"). The new version gets one placeholder page per given page and a payload
  holding the given pages' PDF pages in the given order (the tests open the new
  document's payload and count these pages; no view writes it). A given page whose
  version has no payload, or no PDF page of that number, fails before anything is
  written.
\<close>

fun seed_pages :: "state \<Rightarrow> page list \<Rightarrow> error + pdf" where
  "seed_pages s [] = Inr []"
| "seed_pages s (p # ps) =
     (case payloads s (page_version p) of
        None \<Rightarrow> Inl FileNotFoundError
      | Some src \<Rightarrow>
          (case pages_p src (number p) of
             Inl e \<Rightarrow> Inl e
           | Inr x \<Rightarrow> (case seed_pages s ps of Inl e \<Rightarrow> Inl e | Inr xs \<Rightarrow> Inr (x # xs))))"

definition version_bump_from_pages ::
  "state \<Rightarrow> nat \<Rightarrow> page list \<Rightarrow> (error + document_version) \<times> state" where
  "version_bump_from_pages s doc ps =
     (case seed_pages s ps of
        Inl e \<Rightarrow> (Inl e, s)
      | Inr new_pdf \<Rightarrow>
          (case version_bump s doc (Some (int (length ps))) of
             (new_version, s1) \<Rightarrow>
               (Inr new_version,
                s1\<lparr>payloads := (payloads s1)(version_pk new_version \<mapsto> new_pdf)\<rparr>)))"

section \<open>The functions of views/pages.py\<close>

text \<open>
  A call returns the exception it raised, if any, together with the state the stores
  were in at that moment: there is no rollback, so what was written before an exception
  stays written.
\<close>

type_synonym outcome = "error option \<times> state"

definition and_then :: "outcome \<Rightarrow> (state \<Rightarrow> outcome) \<Rightarrow> outcome" where
  "and_then r f = (case r of (Some e, s) \<Rightarrow> (Some e, s) | (None, s) \<Rightarrow> f s)"

subsection \<open>Side-data replication\<close>

text \<open>\<open>copy_pages_data\<close>: each pair is (source page number, destination page number).\<close>

fun copy_pages_data :: "state \<Rightarrow> nat \<Rightarrow> nat \<Rightarrow> (int \<times> int) list \<Rightarrow> state" where
  "copy_pages_data s old_version new_version [] = s"
| "copy_pages_data s old_version new_version ((src_page_number, dst_page_number) # pages_map) =
     copy_pages_data
       (copy_page s (old_version, src_page_number) (new_version, dst_page_number))
       old_version new_version pages_map"

text \<open>\<open>reuse_ocr_data\<close>: each pair is (new number, old number).\<close>

fun reuse_ocr_data :: "state \<Rightarrow> nat \<Rightarrow> nat \<Rightarrow> (int \<times> int) list \<Rightarrow> state" where
  "reuse_ocr_data s old_version new_version [] = s"
| "reuse_ocr_data s old_version new_version ((new_number, old_number) # page_map) =
     reuse_ocr_data
       (copy_page s (old_version, old_number) (new_version, new_number))
       old_version new_version page_map"

text \<open>
  \<open>collect_text_streams\<close>: the dictionary comprehension keeps, for a page number that
  occurs twice, the page listed last; a number that is not a key raises KeyError. A
  stream is the text it holds.
\<close>

fun collect_loop :: "(int \<rightharpoonup> page) \<Rightarrow> int list \<Rightarrow> error + string list" where
  "collect_loop pages_map [] = Inr []"
| "collect_loop pages_map (n # ns) =
     (case pages_map n of
        None \<Rightarrow> Inl KeyError
      | Some p \<Rightarrow>
          (case collect_loop pages_map ns of
             Inl e \<Rightarrow> Inl e
           | Inr streams \<Rightarrow> Inr (page_text p # streams)))"

definition collect_text_streams :: "state \<Rightarrow> nat \<Rightarrow> int list \<Rightarrow> error + string list" where
  "collect_text_streams s version page_numbers =
     collect_loop (map_of (rev (map (\<lambda>p. (number p, p)) (version_pages s version))))
       page_numbers"

definition reuse_text_field :: "state \<Rightarrow> nat \<Rightarrow> nat \<Rightarrow> (int \<times> int) list \<Rightarrow> outcome" where
  "reuse_text_field s old_version new_version page_map =
     (case collect_text_streams s old_version (map snd page_map) of
        Inl e \<Rightarrow> (Some e, s)
      | Inr streams \<Rightarrow> (None, update_text_field s new_version streams))"

definition reuse_text_field_multi ::
  "state \<Rightarrow> nat \<Rightarrow> nat \<Rightarrow> nat \<Rightarrow> int \<Rightarrow> page list \<Rightarrow> outcome" where
  "reuse_text_field_multi s src_old_version dst_old_version dst_new_version position ps =
     (let page_map1 = map (\<lambda>pos. (pos, pos)) [1..position]
      in case (if length page_map1 > 0
               then collect_text_streams s dst_old_version (map snd page_map1)
               else Inr []) of
           Inl e \<Rightarrow> (Some e, s)
         | Inr streams1 \<Rightarrow>
             (let page_map2 = zip [position + 1..int (length ps)] (map number ps)
              in case collect_text_streams s src_old_version (map snd page_map2) of
                   Inl e \<Rightarrow> (Some e, s)
                 | Inr streams2 \<Rightarrow>
                     (let dst_new_total_pages = int (length (version_pages s dst_new_version));
                          page_map3 =
                            map (\<lambda>pos. (pos, pos - position - int (length ps)))
                              [position + 1 + int (length ps)..dst_new_total_pages]
                      in case collect_text_streams s dst_old_version (map snd page_map3) of
                           Inl e \<Rightarrow> (Some e, s)
                         | Inr streams3 \<Rightarrow>
                             (None,
                              update_text_field s dst_new_version
                                (streams1 @ streams2 @ streams3)))))"

subsection \<open>The PDF page editor\<close>

fun insert_loop :: "pdf \<Rightarrow> pdf \<Rightarrow> int list \<Rightarrow> int \<Rightarrow> int \<Rightarrow> error + pdf" where
  "insert_loop src_old_pdf dst_old_pdf [] position inserted_count = Inr dst_old_pdf"
| "insert_loop src_old_pdf dst_old_pdf (page_number # page_numbers) position inserted_count =
     (case pages_p src_old_pdf page_number of
        Inl e \<Rightarrow> Inl e
      | Inr pdf_page \<Rightarrow>
          (case pages_insert dst_old_pdf (position + inserted_count) pdf_page of
             Inl e \<Rightarrow> Inl e
           | Inr dst' \<Rightarrow>
               insert_loop src_old_pdf dst' page_numbers position (inserted_count + 1)))"

definition insert_pdf_pages :: "state \<Rightarrow> nat \<Rightarrow> nat \<Rightarrow> nat \<Rightarrow> int list \<Rightarrow> int \<Rightarrow> outcome" where
  "insert_pdf_pages s src_old_version dst_old_version dst_new_version page_numbers position =
     (case payloads s src_old_version of
        None \<Rightarrow> (Some FileNotFoundError, s)
      | Some src_old_pdf \<Rightarrow>
          (case payloads s dst_old_version of
             None \<Rightarrow> (Some FileNotFoundError, s)
           | Some dst_old_pdf \<Rightarrow>
               (case insert_loop src_old_pdf dst_old_pdf page_numbers position 0 of
                  Inl e \<Rightarrow> (Some e, s)
                | Inr dst \<Rightarrow> (None, s\<lparr>payloads := (payloads s)(dst_new_version \<mapsto> dst)\<rparr>))))"

fun remove_loop :: "pdf \<Rightarrow> int list \<Rightarrow> int \<Rightarrow> error + pdf" where
  "remove_loop pdf [] deleted_count = Inr pdf"
| "remove_loop pdf (n # ns) deleted_count =
     (case pages_remove pdf (n - deleted_count) of
        Inl e \<Rightarrow> Inl e
      | Inr pdf' \<Rightarrow> remove_loop pdf' ns (deleted_count + 1))"

definition remove_pdf_pages :: "state \<Rightarrow> nat \<Rightarrow> nat \<Rightarrow> page list \<Rightarrow> outcome" where
  "remove_pdf_pages s old_version new_version pages_to_delete =
     (case payloads s old_version of
        None \<Rightarrow> (Some FileNotFoundError, s)
      | Some pdf \<Rightarrow>
          (case remove_loop pdf (map number pages_to_delete) 0 of
             Inl e \<Rightarrow> (Some e, s)
           | Inr pdf' \<Rightarrow> (None, s\<lparr>payloads := (payloads s)(new_version \<mapsto> pdf')\<rparr>)))"

record reorder_item =
  reorder_id :: nat
  old_number :: int
  new_number :: int

fun append_loop :: "pdf \<Rightarrow> pdf \<Rightarrow> reorder_item list \<Rightarrow> error + pdf" where
  "append_loop src dst [] = Inr dst"
| "append_loop src dst (list_item # reodered_list) =
     (case pages_p src (old_number list_item) of
        Inl e \<Rightarrow> Inl e
      | Inr p \<Rightarrow> append_loop src (dst @ [p]) reodered_list)"

definition reorder_pdf_pages :: "state \<Rightarrow> nat \<Rightarrow> nat \<Rightarrow> reorder_item list \<Rightarrow> outcome" where
  "reorder_pdf_pages s old_version new_version pages_data =
     (case payloads s old_version of
        None \<Rightarrow> (Some FileNotFoundError, s)
      | Some src \<Rightarrow>
          (case append_loop src [] (sort_key new_number pages_data) of
             Inl e \<Rightarrow> (Some e, s)
           | Inr dst \<Rightarrow> (None, s\<lparr>payloads := (payloads s)(new_version \<mapsto> dst)\<rparr>)))"

fun rotate_loop :: "pdf \<Rightarrow> (int \<times> int) list \<Rightarrow> error + pdf" where
  "rotate_loop src [] = Inr src"
| "rotate_loop src ((n, a) # pages_data) =
     (case pages_p src n of
        Inl e \<Rightarrow> Inl e
      | Inr p \<Rightarrow>
          (case page_rotate p a of
             Inl e \<Rightarrow> Inl e
           | Inr p' \<Rightarrow> rotate_loop (src[nat (n - 1) := p']) pages_data))"

definition rotate_pdf_pages :: "state \<Rightarrow> nat \<Rightarrow> nat \<Rightarrow> (int \<times> int) list \<Rightarrow> outcome" where
  "rotate_pdf_pages s old_version new_version pages_data =
     (case payloads s old_version of
        None \<Rightarrow> (Some FileNotFoundError, s)
      | Some src \<Rightarrow>
          (case rotate_loop src pages_data of
             Inl e \<Rightarrow> (Some e, s)
           | Inr src' \<Rightarrow> (None, s\<lparr>payloads := (payloads s)(new_version \<mapsto> src')\<rparr>)))"

subsection \<open>Delete\<close>

text \<open>
  The block that \<open>perform_destroy\<close>, \<open>delete_pages\<close>, \<open>move_to_folder\<close> and
  \<open>move_to_document\<close> each run after their version bump, in the same words:
  \<open>remove_pdf_pages\<close>, \<open>get_assigns_after_delete\<close>, \<open>reuse_ocr_data\<close>,
  \<open>reuse_text_field\<close>.
\<close>

definition delete_flow ::
  "state \<Rightarrow> document_version \<Rightarrow> document_version \<Rightarrow> page list \<Rightarrow> outcome" where
  "delete_flow s old_version new_version pages_to_delete =
     and_then
       (remove_pdf_pages s (version_pk old_version) (version_pk new_version) pages_to_delete)
       (\<lambda>s1.
          let page_map = get_assigns_after_delete (page_count old_version)
                           (map number pages_to_delete)
          in reuse_text_field
               (reuse_ocr_data s1 (version_pk old_version) (version_pk new_version) page_map)
               (version_pk old_version) (version_pk new_version) page_map)"

text \<open>\<open>PageView.perform_destroy\<close>: the single-page endpoint.\<close>

definition perform_destroy :: "state \<Rightarrow> page \<Rightarrow> outcome" where
  "perform_destroy s instance =
     (if is_archived s instance
      then (Some (APIBadRequest ''Deleting archived page is not allowed''), s)
      else
        (let pages_to_delete = pages_filter_pk s [page_pk instance]
         in case get_version s (page_version instance) of
              None \<Rightarrow> (Some DoesNotExist, s)
            | Some old_version \<Rightarrow>
                (case version_bump s (version_document old_version)
                        (Some (page_count old_version - 1)) of
                   (new_version, s1) \<Rightarrow>
                     delete_flow s1 old_version new_version pages_to_delete)))"

text \<open>\<open>PagesView.delete_pages\<close>: the multi-page endpoint.\<close>

definition delete_pages :: "state \<Rightarrow> nat list \<Rightarrow> outcome" where
  "delete_pages s page_ids =
     (let pages_to_delete = pages_filter_pk s page_ids;
          first_page = first pages_to_delete
      in if list_ex (is_archived s) pages_to_delete
         then (Some (APIBadRequest ''Deleting archived page is not allowed''), s)
         else
           (case first_page of
              None \<Rightarrow> (Some AttributeError, s)
            | Some fp \<Rightarrow>
                (case get_version s (page_version fp) of
                   None \<Rightarrow> (Some DoesNotExist, s)
                 | Some old_version \<Rightarrow>
                     (let count = length (version_pages s (version_pk old_version))
                      in if count \<le> length pages_to_delete
                         then (Some (APIBadRequest
                                 ''Document version must have at least one page''), s)
                         else
                           (case version_bump s (version_document old_version)
                                   (Some (page_count old_version
                                          - int (length pages_to_delete))) of
                              (new_version, s1) \<Rightarrow>
                                delete_flow s1 old_version new_version pages_to_delete)))))"

subsection \<open>Reorder\<close>

text \<open>
  \<open>PagesReorderView.reorder_pages\<close>. \<open>get_reordered_list\<close> is not among the source
  files; the view takes it as a parameter, so that what is proved of the view holds
  whatever that helper does with its input.
\<close>

definition reorder_pages ::
  "(reorder_item list \<Rightarrow> int \<Rightarrow> error + int list) \<Rightarrow> state \<Rightarrow> reorder_item list \<Rightarrow> outcome"
  where
  "reorder_pages get_reordered_list s pages_data =
     (case first (pages_filter_pk s (map reorder_id pages_data)) of
        None \<Rightarrow> (Some AttributeError, s)
      | Some fp \<Rightarrow>
          (case get_version s (page_version fp) of
             None \<Rightarrow> (Some DoesNotExist, s)
           | Some old_version \<Rightarrow>
               (case version_bump s (version_document old_version)
                       (Some (page_count old_version)) of
                  (new_version, s1) \<Rightarrow>
                    (let pc = int (length (version_pages s1 (version_pk old_version)))
                     in and_then
                          (reorder_pdf_pages s1 (version_pk old_version)
                             (version_pk new_version) pages_data)
                          (\<lambda>s2.
                             case get_reordered_list pages_data pc of
                               Inl e \<Rightarrow> (Some e, s2)
                             | Inr reordered_list \<Rightarrow>
                                 (let page_map = zip [1..pc] reordered_list
                                  in reuse_text_field
                                       (reuse_ocr_data s2 (version_pk old_version)
                                          (version_pk new_version) page_map)
                                       (version_pk old_version) (version_pk new_version)
                                       page_map))))))"

text \<open>
  Modelled from the spec: \<open>get_reordered_list\<close> (section 4.2, "reorder(assignments of
  old_number to new_number for every page, total_pages): output covers all
  1..total_pages; the set of new_number values must be exactly {1..total_pages} with no
  duplicate or missing value, else reject as invalid (do not silently clamp)"). The
  result lists, for each new position in ascending order, the old number placed there.
\<close>

definition get_reordered_list :: "reorder_item list \<Rightarrow> int \<Rightarrow> error + int list" where
  "get_reordered_list pages_data total_pages =
     (if sort (map new_number pages_data) = [1..total_pages]
      then Inr (map old_number (sort_key new_number pages_data))
      else Inl InvalidRequest)"

subsection \<open>Rotate\<close>

text \<open>
  \<open>PagesRotateView.rotate_pages\<close>. Its page map is
  \<open>[(page.number, page.number) for page in old_version.pages.all()]\<close>.
\<close>

definition rotate_page_map :: "state \<Rightarrow> nat \<Rightarrow> (int \<times> int) list" where
  "rotate_page_map s old_version =
     map (\<lambda>p. (number p, number p)) (version_pages s old_version)"

definition rotate_pages :: "state \<Rightarrow> rotate_item list \<Rightarrow> outcome" where
  "rotate_pages s pages_data =
     (let ps = pages_filter_pk s (map rotate_id pages_data)
      in case first ps of
           None \<Rightarrow> (Some AttributeError, s)
         | Some fp \<Rightarrow>
             (case get_version s (page_version fp) of
                None \<Rightarrow> (Some DoesNotExist, s)
              | Some old_version \<Rightarrow>
                  (case version_bump s (version_document old_version) None of
                     (new_version, s1) \<Rightarrow>
                       and_then
                         (rotate_pdf_pages s1 (version_pk old_version)
                            (version_pk new_version) (annotate_page_data ps pages_data))
                         (\<lambda>s2.
                            let page_map = rotate_page_map s2 (version_pk old_version)
                            in reuse_text_field s2 (version_pk old_version)
                                 (version_pk new_version) page_map))))"

subsection \<open>Move to folder\<close>

text \<open>
  \<open>OCR_STATUS_SUCCEEDED\<close> is a constant of models/utils.py, which is not among the
  source files; nothing below depends on its value.
\<close>

definition OCR_STATUS_SUCCEEDED :: string where
  "OCR_STATUS_SUCCEEDED = ''succeeded''"

text \<open>The decimal digits of a primary key, for the f-string of the new title.\<close>

fun str_of_nat :: "nat \<Rightarrow> string" where
  "str_of_nat n =
     (if n < 10 then [char_of (48 + n)]
      else str_of_nat (n div 10) @ [char_of (48 + n mod 10)])"

text \<open>The page path of a page: its version's document path and its number.\<close>

definition page_path :: "page \<Rightarrow> nat \<times> int" where
  "page_path p = (page_version p, number p)"

fun copy_page_pairs :: "state \<Rightarrow> (page \<times> page) list \<Rightarrow> state" where
  "copy_page_pairs s [] = s"
| "copy_page_pairs s ((src_page, dst_page) # rest) =
     copy_page_pairs (copy_page s (page_path src_page) (page_path dst_page)) rest"

definition move_to_folder_multi_paged :: "state \<Rightarrow> page list \<Rightarrow> page \<Rightarrow> folder \<Rightarrow> outcome" where
  "move_to_folder_multi_paged s ps first_page dst_folder =
     (case create_document s ''noname.pdf'' (page_lang first_page) (folder_user dst_folder)
             (folder_pk dst_folder) OCR_STATUS_SUCCEEDED of
        (new_doc, s1) \<Rightarrow>
          (case version_bump_from_pages s1 (document_pk new_doc) ps of
             (Inl e, s2) \<Rightarrow> (Some e, s2)
           | (Inr dst_version, s2) \<Rightarrow>
               (let page_map = zip [1..int (length ps)] (map number ps);
                    s3 = copy_page_pairs s2
                           (zip ps (version_pages s2 (version_pk dst_version)))
                in reuse_text_field s3 (page_version first_page) (version_pk dst_version)
                     page_map)))"

fun move_to_folder_single_paged :: "state \<Rightarrow> page list \<Rightarrow> folder \<Rightarrow> outcome" where
  "move_to_folder_single_paged s [] dst_folder = (None, s)"
| "move_to_folder_single_paged s (p # ps) dst_folder =
     (case create_document s (''noname-'' @ str_of_nat (page_pk p) @ ''.pdf'') (page_lang p)
             (folder_user dst_folder) (folder_pk dst_folder) OCR_STATUS_SUCCEEDED of
        (doc, s1) \<Rightarrow>
          (case version_bump_from_pages s1 (document_pk doc) [p] of
             (Inl e, s2) \<Rightarrow> (Some e, s2)
           | (Inr doc_version, s2) \<Rightarrow>
               (case first (version_pages s2 (version_pk doc_version)) of
                  None \<Rightarrow> (Some AttributeError, s2)
                | Some dst_page \<Rightarrow>
                    and_then
                      (reuse_text_field (copy_page s2 (page_path p) (page_path dst_page))
                         (page_version p) (version_pk doc_version) [(1, number p)])
                      (\<lambda>s4. move_to_folder_single_paged s4 ps dst_folder))))"

record move_to_folder_data =
  folder_pages :: "nat list"
  folder_dst :: nat
  single_page :: bool

text \<open>\<open>PagesMoveToFolderView.move_to_folder\<close>, for the requesting user.\<close>

definition move_to_folder :: "state \<Rightarrow> nat \<Rightarrow> move_to_folder_data \<Rightarrow> outcome" where
  "move_to_folder s user data =
     (let ps = pages_filter_pk s (folder_pages data)
      in case get_folder s (folder_dst data) user of
           None \<Rightarrow> (Some DoesNotExist, s)
         | Some dst_folder \<Rightarrow>
             (case first ps of
                None \<Rightarrow> (Some AttributeError, s)
              | Some first_page \<Rightarrow>
                  (case get_version s (page_version first_page) of
                     None \<Rightarrow> (Some DoesNotExist, s)
                   | Some src_old_version \<Rightarrow>
                       (case version_bump s (version_document src_old_version)
                               (Some (int (length (version_pages s
                                                     (version_pk src_old_version)))
                                      - int (length ps))) of
                          (src_new_version, s1) \<Rightarrow>
                            and_then (delete_flow s1 src_old_version src_new_version ps)
                              (\<lambda>s2.
                                 if single_page data
                                 then move_to_folder_single_paged s2 ps dst_folder
                                 else move_to_folder_multi_paged s2 ps first_page
                                        dst_folder)))))"

subsection \<open>Move to document\<close>

record move_to_document_data =
  document_pages :: "nat list"
  document_dst :: nat
  position :: int

text \<open>\<open>PagesMoveToDocumentView.move_to_document\<close>, for the requesting user.\<close>

definition move_to_document :: "state \<Rightarrow> nat \<Rightarrow> move_to_document_data \<Rightarrow> outcome" where
  "move_to_document s user data =
     (let ps = pages_filter_pk s (document_pages data)
      in case get_document s (document_dst data) user of
           None \<Rightarrow> (Some DoesNotExist, s)
         | Some dst_document \<Rightarrow>
             (case first ps of
                None \<Rightarrow> (Some AttributeError, s)
              | Some fp \<Rightarrow>
                  (case get_version s (page_version fp) of
                     None \<Rightarrow> (Some DoesNotExist, s)
                   | Some src_old_version \<Rightarrow>
                       (let dst_old = last_version s (document_pk dst_document)
                        in case version_bump s (version_document src_old_version)
                                  (Some (int (length (version_pages s
                                                        (version_pk src_old_version)))
                                         - int (length ps))) of
                             (src_new_version, s1) \<Rightarrow>
                               (case dst_old of
                                  None \<Rightarrow> (Some AttributeError, s1)
                                | Some dst_old_version \<Rightarrow>
                                    (case version_bump s1 (document_pk dst_document)
                                            (Some (int (length (version_pages s1
                                                                  (version_pk dst_old_version)))
                                                   + int (length ps))) of
                                       (dst_new_version, s2) \<Rightarrow>
                                         and_then
                                           (delete_flow s2 src_old_version src_new_version ps)
                                           (\<lambda>s3.
                                              and_then
                                                (insert_pdf_pages s3
                                                   (version_pk src_old_version)
                                                   (version_pk dst_old_version)
                                                   (version_pk dst_new_version)
                                                   (map number ps) (position data))
                                                (\<lambda>s4.
                                                   reuse_text_field_multi
                                                     (copy_pages_data s4
                                                        (version_pk dst_old_version)
                                                        (version_pk dst_new_version)
                                                        (map (\<lambda>p. (number p,
                                                                     number p + position data))
                                                           ps))
                                                     (version_pk src_old_version)
                                                     (version_pk dst_old_version)
                                                     (version_pk dst_new_version)
                                                     (position data) ps))))))))"

text \<open>
  \<open>PagesMoveToDocumentSerializer\<close> and the view's \<open>post\<close>. A request carries each
  field or omits it; \<open>pages\<close> and \<open>dst\<close> are required, \<open>position\<close> is an integer
  field with \<open>default=-1\<close>. An invalid request is answered with 400 and nothing runs; a
  valid one runs \<open>move_to_document\<close> on the serializer's data.
\<close>

record move_to_document_request =
  request_pages :: "nat list option"
  request_dst :: "nat option"
  request_position :: "int option"

definition PagesMoveToDocumentSerializer ::
  "move_to_document_request \<Rightarrow> move_to_document_data option" where
  "PagesMoveToDocumentSerializer req =
     (case request_pages req of
        None \<Rightarrow> None
      | Some ids \<Rightarrow>
          (case request_dst req of
             None \<Rightarrow> None
           | Some dst \<Rightarrow>
               Some \<lparr>document_pages = ids, document_dst = dst,
                     position = (case request_position req of None \<Rightarrow> - 1 | Some i \<Rightarrow> i)\<rparr>))"

datatype response = HTTP_204_NO_CONTENT | HTTP_400_BAD_REQUEST | Raised error

definition post_move_to_document ::
  "state \<Rightarrow> nat \<Rightarrow> move_to_document_request \<Rightarrow> response \<times> state" where
  "post_move_to_document s user req =
     (case PagesMoveToDocumentSerializer req of
        None \<Rightarrow> (HTTP_400_BAD_REQUEST, s)
      | Some data \<Rightarrow>
          (case move_to_document s user data of
             (None, s') \<Rightarrow> (HTTP_204_NO_CONTENT, s')
           | (Some e, s') \<Rightarrow> (Raised e, s')))"

section \<open>Well-formed stores and selections\<close>

text \<open>
  What the persistence layer guarantees of its tables: page primary keys are unique, and
  every page row refers to a version row that exists.
\<close>

definition wf_state :: "state \<Rightarrow> bool" where
  "wf_state s =
     (distinct (map page_pk (pages s))
      \<and> list_all (\<lambda>p. page_version p \<in> set (map version_pk (versions s))) (pages s))"

text \<open>
  A selection of pages of a current version: the pages \<open>ps\<close> are not empty and all
  belong to the version \<open>ov\<close>, which is the current (last) version of its document;
  the version's pages are numbered \<open>1..page_count\<close>, and its payload \<open>pdf\<close> has
  \<open>page_count\<close> pages.
\<close>

definition current_selection :: "state \<Rightarrow> page list \<Rightarrow> document_version \<Rightarrow> pdf \<Rightarrow> bool" where
  "current_selection s ps ov pdf =
     (ps \<noteq> []
      \<and> list_all (\<lambda>p. page_version p = version_pk ov) ps
      \<and> get_version s (version_pk ov) = Some ov
      \<and> last_version s (version_document ov) = Some ov
      \<and> map number (version_pages s (version_pk ov)) = [1..page_count ov]
      \<and> payloads s (version_pk ov) = Some pdf
      \<and> int (length pdf) = page_count ov)"

text \<open>The text of the page numbered \<open>n\<close> in a version whose pages are numbered from 1.\<close>

definition text_at :: "state \<Rightarrow> nat \<Rightarrow> int \<Rightarrow> string" where
  "text_at s v n = page_text (version_pages s v ! nat (n - 1))"

text \<open>
  Immutability of history. \<open>archived_intact s s'\<close>: every version that exists in
  \<open>s\<close> has in \<open>s'\<close> the payload, the pages (rows and texts, in page order) and the
  version row it has in \<open>s\<close>. \<open>stable V s0 s\<close> is the invariant the proofs carry
  through a view: \<open>s\<close> is well-formed, the versions \<open>V\<close> exist in it and read as in
  \<open>s0\<close>.
\<close>

definition stable :: "nat set \<Rightarrow> state \<Rightarrow> state \<Rightarrow> bool" where
  "stable V s0 s =
     (wf_state s \<and> V \<subseteq> set (map version_pk (versions s))
      \<and> (\<forall>v \<in> V. payloads s v = payloads s0 v
                  \<and> version_pages s v = version_pages s0 v
                  \<and> get_version s v = get_version s0 v))"

definition archived_intact :: "state \<Rightarrow> state \<Rightarrow> bool" where
  "archived_intact s s' =
     list_all (\<lambda>v. payloads s' v = payloads s v
                  \<and> version_pages s' v = version_pages s v
                  \<and> get_version s' v = get_version s v)
       (map version_pk (versions s))"

section \<open>Two example documents\<close>

text \<open>
  The documents of the test suite's move scenarios: a source and a destination of three
  pages each, owned by user 1 and filed under folder 10, with their page texts, payloads
  and rendering artifacts.
\<close>

definition mk_page :: "nat \<Rightarrow> nat \<Rightarrow> int \<Rightarrow> string \<Rightarrow> page" where
  "mk_page pk v n t =
     \<lparr>page_pk = pk, page_version = v, number = n, page_text = t, page_lang = ''deu''\<rparr>"

definition mk_pdf_page :: "nat \<Rightarrow> pdf_page" where
  "mk_pdf_page c = \<lparr>content = c, rotation = 0\<rparr>"

definition example_state :: state where
  "example_state =
     \<lparr>folders = [\<lparr>folder_pk = 10, folder_user = 1\<rparr>],
      documents =
        [\<lparr>document_pk = 1, title = ''source.pdf'', document_lang = ''deu'',
          document_user = 1, parent = 10, ocr_status = []\<rparr>,
         \<lparr>document_pk = 2, title = ''destination.pdf'', document_lang = ''deu'',
          document_user = 1, parent = 10, ocr_status = []\<rparr>],
      versions =
        [\<lparr>version_pk = 1, version_document = 1, version_number = 1, page_count = 3,
          version_text = [], version_lang = ''deu''\<rparr>,
         \<lparr>version_pk = 2, version_document = 2, version_number = 1, page_count = 3,
          version_text = [], version_lang = ''deu''\<rparr>],
      pages =
        [mk_page 1 1 1 ''cat'', mk_page 2 1 2 ''dog'', mk_page 3 1 3 ''monkey'',
         mk_page 4 2 1 ''flower'', mk_page 5 2 2 ''tree'', mk_page 6 2 3 ''plant''],
      payloads =
        [1 \<mapsto> [mk_pdf_page 11, mk_pdf_page 12, mk_pdf_page 13],
         2 \<mapsto> [mk_pdf_page 21, mk_pdf_page 22, mk_pdf_page 23]],
      artifacts =
        [(1, 1) \<mapsto> 111, (1, 2) \<mapsto> 112, (1, 3) \<mapsto> 113,
         (2, 1) \<mapsto> 121, (2, 2) \<mapsto> 122, (2, 3) \<mapsto> 123]\<rparr>"

text \<open>
  The document of the test suite's delete scenario: three pages with the texts
  "page 1", "page 2", "page 3".
\<close>

definition three_pages_state :: state where
  "three_pages_state =
     \<lparr>folders = [\<lparr>folder_pk = 10, folder_user = 1\<rparr>],
      documents =
        [\<lparr>document_pk = 1, title = ''three-pages.pdf'', document_lang = ''deu'',
          document_user = 1, parent = 10, ocr_status = []\<rparr>],
      versions =
        [\<lparr>version_pk = 1, version_document = 1, version_number = 1, page_count = 3,
          version_text = [], version_lang = ''deu''\<rparr>],
      pages =
        [mk_page 1 1 1 ''page 1'', mk_page 2 1 2 ''page 2'', mk_page 3 1 3 ''page 3''],
      payloads = [1 \<mapsto> [mk_pdf_page 1, mk_pdf_page 2, mk_pdf_page 3]],
      artifacts = Map.empty\<rparr>"

text \<open>
  A document of one page, and the example documents after page 1 of the source was
  rotated by 90 degrees (so that the pages with primary keys 1, 2, 3 are archived).
\<close>

definition one_page_state :: state where
  "one_page_state =
     \<lparr>folders = [\<lparr>folder_pk = 10, folder_user = 1\<rparr>],
      documents =
        [\<lparr>document_pk = 1, title = ''one-page.pdf'', document_lang = ''deu'',
          document_user = 1, parent = 10, ocr_status = []\<rparr>],
      versions =
        [\<lparr>version_pk = 1, version_document = 1, version_number = 1, page_count = 1,
          version_text = [], version_lang = ''deu''\<rparr>],
      pages = [mk_page 1 1 1 ''only''],
      payloads = [1 \<mapsto> [mk_pdf_page 1]],
      artifacts = Map.empty\<rparr>"

definition rotated_state :: state where
  "rotated_state = snd (rotate_pages example_state [\<lparr>rotate_id = 1, angle = 90\<rparr>])"

section \<open>The remove transform\<close>

lemma nths_agree:
  "(\<And>i. i < length xs \<Longrightarrow> (i \<in> A) = (i \<in> B)) \<Longrightarrow> nths xs A = nths xs B"
proof (induction xs arbitrary: A B)
  case Nil
  then show ?case by simp
next
  case (Cons x xs)
  have h0: "(0 \<in> A) = (0 \<in> B)" using Cons.prems[of 0] by simp
  have "nths xs {j. Suc j \<in> A} = nths xs {j. Suc j \<in> B}"
    by (rule Cons.IH) (use Cons.prems in auto)
  with h0 show ?case by (simp add: nths_Cons)
qed

lemma remove_loop_nths:
  "sorted_wrt (<) ns \<Longrightarrow> (\<forall>n \<in> set ns. d < n \<and> n \<le> int (length pdf) + d) \<Longrightarrow> 0 \<le> d \<Longrightarrow>
   remove_loop pdf ns d = Inr (nths pdf {i. int i + 1 + d \<notin> set ns})"
proof (induction ns arbitrary: pdf d)
  case Nil
  then show ?case by (simp add: nths_all)
next
  case (Cons n ns)
  define m where "m = nat (n - d - 1)"
  have nd: "d < n" "n \<le> int (length pdf) + d" using Cons.prems by auto
  have m_lt: "m < length pdf" using nd by (simp add: m_def)
  have m_int: "int m = n - d - 1" using nd by (simp add: m_def)
  define pdf' where "pdf' = take m pdf @ drop (Suc m) pdf"
  have rem: "pages_remove pdf (n - d) = Inr pdf'"
    using nd m_lt unfolding pages_remove_def pdf'_def m_def
    by (simp add: nat_diff_distrib Suc_nat_eq_nat_zadd1 nat_add_distrib)
  have gt: "\<forall>k \<in> set ns. n < k" using Cons.prems(1) by simp
  have len': "length pdf' = length pdf - 1" using m_lt by (simp add: pdf'_def)
  have ih: "remove_loop pdf' ns (d + 1) = Inr (nths pdf' {i. int i + 1 + (d + 1) \<notin> set ns})"
  proof (rule Cons.IH)
    show "sorted_wrt (<) ns" using Cons.prems(1) by simp
    show "\<forall>k\<in>set ns. d + 1 < k \<and> k \<le> int (length pdf') + (d + 1)"
      using gt nd Cons.prems(2) m_lt len' by fastforce
    show "0 \<le> d + 1" using Cons.prems(3) by simp
  qed
  define A where "A = {i. int i + 1 + d \<notin> set (n # ns)}"
  define A' where "A' = {i. int i + 1 + (d + 1) \<notin> set ns}"
  have split: "pdf = take m pdf @ (pdf ! m) # drop (Suc m) pdf"
    using m_lt by (rule id_take_nth_drop)
  have lt: "length (take m pdf) = m" using m_lt by simp
  have frontA: "nths (take m pdf) A = take m pdf"
    unfolding A_def by (rule nths_all) (use gt m_int lt in fastforce)
  have frontA': "nths (take m pdf) A' = take m pdf"
    unfolding A'_def by (rule nths_all) (use gt m_int lt in fastforce)
  have m_notin: "0 \<notin> {j. j + m \<in> A}"
    using m_int by (simp add: A_def)
  have tail_sets: "{j. Suc j \<in> {j. j + m \<in> A}} = {j. j + m \<in> A'}"
  proof (rule Collect_cong)
    fix j
    define x where "x = int (Suc j + m) + 1 + d"
    have e: "int (j + m) + 1 + (d + 1) = x" by (simp add: x_def)
    have ne: "x \<noteq> n" using m_int by (simp add: x_def)
    have "(Suc j \<in> {j. j + m \<in> A}) = (x \<notin> set (n # ns))"
      by (simp only: A_def mem_Collect_eq x_def)
    also have "\<dots> = (x \<notin> set ns)" using ne by simp
    also have "\<dots> = (j + m \<in> A')" by (simp only: A'_def mem_Collect_eq e)
    finally show "(Suc j \<in> {j. j + m \<in> A}) = (j + m \<in> A')" .
  qed
  have "nths pdf A = nths (take m pdf @ (pdf ! m) # drop (Suc m) pdf) A"
    using split by simp
  also have "\<dots> = nths (take m pdf) A @ nths ((pdf ! m) # drop (Suc m) pdf) {j. j + m \<in> A}"
    by (simp only: nths_append lt)
  also have "nths ((pdf ! m) # drop (Suc m) pdf) {j. j + m \<in> A}
      = nths (drop (Suc m) pdf) {j. Suc j \<in> {j. j + m \<in> A}}"
    using m_notin by (simp only: nths_Cons if_False append_Nil)
  finally have lhs: "nths pdf A = take m pdf @ nths (drop (Suc m) pdf) {j. j + m \<in> A'}"
    by (simp only: frontA tail_sets)
  have rhs: "nths pdf' A' = take m pdf @ nths (drop (Suc m) pdf) {j. j + m \<in> A'}"
    unfolding pdf'_def by (simp only: nths_append lt frontA')
  have "remove_loop pdf (n # ns) d = remove_loop pdf' ns (d + 1)"
    using rem by simp
  also have "\<dots> = Inr (nths pdf' A')" using ih by (simp only: A'_def)
  also have "\<dots> = Inr (nths pdf A)" by (simp only: lhs rhs)
  finally show ?case by (simp only: A_def)
qed

text \<open>The pages at the surviving numbers, in ascending order.\<close>

lemma nths_survivors:
  "nths xs {i. int i + 1 \<notin> D}
     = map (\<lambda>n. xs ! nat (n - 1)) (filter (\<lambda>n. n \<notin> D) [1..int (length xs)])"
proof (induction xs rule: rev_induct)
  case Nil
  then show ?case by simp
next
  case (snoc x xs)
  have up: "[1..int (length (xs @ [x]))] = [1..int (length xs)] @ [int (length xs) + 1]"
    using upto_rec2[of 1 "int (length xs) + 1"] by (simp add: add.commute)
  have cong: "map (\<lambda>n. (xs @ [x]) ! nat (n - 1)) (filter (\<lambda>n. n \<notin> D) [1..int (length xs)])
      = map (\<lambda>n. xs ! nat (n - 1)) (filter (\<lambda>n. n \<notin> D) [1..int (length xs)])"
    by (rule map_cong) (auto simp: nth_append)
  have last_el: "(xs @ [x]) ! nat (int (length xs) + 1 - 1) = x" by simp
  have "nths (xs @ [x]) {i. int i + 1 \<notin> D}
      = nths xs {i. int i + 1 \<notin> D} @ (if int (length xs) + 1 \<notin> D then [x] else [])"
    by (simp add: nths_append nths_Cons)
  then show ?case
    using snoc.IH cong last_el by (simp only: up filter_append map_append) simp
qed

lemma remove_loop_survivors:
  assumes "sorted ns" and "distinct ns" and "\<forall>n \<in> set ns. 1 \<le> n \<and> n \<le> int (length pdf)"
  shows "remove_loop pdf ns 0
           = Inr (map (\<lambda>n. pdf ! nat (n - 1)) (survivors (int (length pdf)) ns))"
proof -
  have strict: "sorted_wrt (<) ns"
    using assms(1,2) by (simp add: strict_sorted_iff)
  have "remove_loop pdf ns 0 = Inr (nths pdf {i. int i + 1 + 0 \<notin> set ns})"
    by (rule remove_loop_nths[OF strict]) (use assms(3) in auto)
  then show ?thesis
    by (simp add: nths_survivors survivors_def)
qed

text \<open>
  C9. For every payload and every selection of target pages by their 1-based numbers in
  the old version (listed, as a queryset lists them, in ascending page number, each page
  once, every number within the payload), \<open>remove_pdf_pages\<close> raises nothing, leaves
  every other payload as it was, and writes as the new version's payload exactly the
  pages at the numbers that were not selected, in their original relative order. The
  loop removes the i-th selected page at its number minus the i-1 removals before it.
\<close>

theorem remove_pdf_pages_strips_selection:
  assumes "payloads s old_version = Some pdf"
    and "sorted (map number pages_to_delete)"
    and "distinct (map number pages_to_delete)"
    and "list_all (\<lambda>p. 1 \<le> number p \<and> number p \<le> int (length pdf)) pages_to_delete"
  shows "remove_pdf_pages s old_version new_version pages_to_delete
           = (None,
              s\<lparr>payloads := (payloads s)(new_version \<mapsto>
                   map (\<lambda>n. pdf ! nat (n - 1))
                     (survivors (int (length pdf)) (map number pages_to_delete)))\<rparr>)"
proof -
  have "\<forall>n \<in> set (map number pages_to_delete). 1 \<le> n \<and> n \<le> int (length pdf)"
    using assms(4) by (auto simp: list_all_iff)
  then have "remove_loop pdf (map number pages_to_delete) 0
      = Inr (map (\<lambda>n. pdf ! nat (n - 1))
               (survivors (int (length pdf)) (map number pages_to_delete)))"
    using assms(2,3) by (intro remove_loop_survivors)
  then show ?thesis
    using assms(1) by (simp add: remove_pdf_pages_def)
qed

theorem remove_pdf_pages_strips_selection_witness:
  "remove_pdf_pages example_state 1 3 (pages_filter_pk example_state [1, 3])
     = (None, example_state\<lparr>payloads := (payloads example_state)(3 \<mapsto> [mk_pdf_page 12])\<rparr>)"
proof -
  let ?pdf = "[mk_pdf_page 11, mk_pdf_page 12, mk_pdf_page 13]"
  let ?ps = "pages_filter_pk example_state [1, 3]"
  have h1: "payloads example_state 1 = Some ?pdf" by code_simp
  have h2: "sorted (map number ?ps)" by code_simp
  have h3: "distinct (map number ?ps)" by code_simp
  have h4: "list_all (\<lambda>p. 1 \<le> number p \<and> number p \<le> int (length ?pdf)) ?ps" by code_simp
  have v: "map (\<lambda>n. ?pdf ! nat (n - 1)) (survivors (int (length ?pdf)) (map number ?ps))
             = [mk_pdf_page 12]"
    by code_simp
  show ?thesis
    using remove_pdf_pages_strips_selection[OF h1 h2 h3 h4, of 3] by (simp only: v)
qed

section \<open>Reading the tables\<close>

lemma fresh_gt: "x \<in> set ids \<Longrightarrow> x < fresh ids"
  by (induction ids) (auto simp: fresh_def)

lemma fresh_notin: "fresh ids \<notin> set ids"
  using fresh_gt[of "fresh ids" ids] by auto

lemma copy_page_proj [simp]:
  "versions (copy_page s a b) = versions s"
  "pages (copy_page s a b) = pages s"
  "payloads (copy_page s a b) = payloads s"
  "documents (copy_page s a b) = documents s"
  "folders (copy_page s a b) = folders s"
  by (simp_all add: copy_page_def split: option.splits)

lemma reuse_ocr_data_proj [simp]:
  "versions (reuse_ocr_data s ov nv pm) = versions s"
  "pages (reuse_ocr_data s ov nv pm) = pages s"
  "payloads (reuse_ocr_data s ov nv pm) = payloads s"
  "documents (reuse_ocr_data s ov nv pm) = documents s"
  "folders (reuse_ocr_data s ov nv pm) = folders s"
  by (induction s ov nv pm rule: reuse_ocr_data.induct) simp_all

lemma copy_pages_data_proj [simp]:
  "versions (copy_pages_data s ov nv pm) = versions s"
  "pages (copy_pages_data s ov nv pm) = pages s"
  "payloads (copy_pages_data s ov nv pm) = payloads s"
  "documents (copy_pages_data s ov nv pm) = documents s"
  "folders (copy_pages_data s ov nv pm) = folders s"
  by (induction s ov nv pm rule: copy_pages_data.induct) simp_all

lemma copy_page_pairs_proj [simp]:
  "versions (copy_page_pairs s prs) = versions s"
  "pages (copy_page_pairs s prs) = pages s"
  "payloads (copy_page_pairs s prs) = payloads s"
  "documents (copy_page_pairs s prs) = documents s"
  "folders (copy_page_pairs s prs) = folders s"
  by (induction s prs rule: copy_page_pairs.induct) simp_all

lemma version_pages_cong: "pages s' = pages s \<Longrightarrow> version_pages s' v = version_pages s v"
  by (simp add: version_pages_def)

lemma pages_filter_pk_cong: "pages s' = pages s \<Longrightarrow> pages_filter_pk s' ids = pages_filter_pk s ids"
  by (simp add: pages_filter_pk_def)

lemma get_version_cong: "versions s' = versions s \<Longrightarrow> get_version s' v = get_version s v"
  by (simp add: get_version_def)

lemma last_version_cong: "versions s' = versions s \<Longrightarrow> last_version s' d = last_version s d"
  by (simp add: last_version_def document_versions_def)

lemma collect_text_streams_cong:
  "pages s' = pages s \<Longrightarrow> collect_text_streams s' v ns = collect_text_streams s v ns"
  by (simp add: collect_text_streams_def version_pages_def)

lemma insort_key_map_commute:
  "(\<And>x. f (g x) = f x) \<Longrightarrow> insort_key f (g x) (map g ys) = map g (insort_key f x ys)"
  by (induction ys) simp_all

lemma sort_key_map_commute:
  "(\<And>x. f (g x) = f x) \<Longrightarrow> sort_key f (map g xs) = map g (sort_key f xs)"
  by (induction xs) (simp_all add: insort_key_map_commute)

lemma filter_map_commute:
  "(\<And>x. P (g x) = P x) \<Longrightarrow> filter P (map g xs) = map g (filter P xs)"
  by (induction xs) simp_all

text \<open>placeholder pages\<close>

lemma placeholder_number [simp]: "map number (placeholder_pages b v l n) = [1..n]"
  by (simp add: placeholder_pages_def comp_def)

lemma placeholder_length [simp]: "length (placeholder_pages b v l n) = nat n"
  by (simp add: placeholder_pages_def)

lemma placeholder_version: "p \<in> set (placeholder_pages b v l n) \<Longrightarrow> page_version p = v"
  by (auto simp: placeholder_pages_def)

lemma placeholder_pk_ge: "p \<in> set (placeholder_pages b v l n) \<Longrightarrow> b \<le> page_pk p"
  by (auto simp: placeholder_pages_def)

lemma placeholder_pk_distinct: "distinct (map page_pk (placeholder_pages b v l n))"
proof -
  have "inj_on (\<lambda>i. b + nat (i - 1)) (set [1..n])"
    by (rule inj_onI) auto
  then show ?thesis
    by (simp add: placeholder_pages_def comp_def distinct_map)
qed

lemma placeholder_filter_same [simp]:
  "filter (\<lambda>p. page_version p = v) (placeholder_pages b v l n) = placeholder_pages b v l n"
  by (rule filter_True) (simp add: placeholder_version)

lemma placeholder_filter_other [simp]:
  "w \<noteq> v \<Longrightarrow> filter (\<lambda>p. page_version p = w) (placeholder_pages b v l n) = []"
  by (auto simp: filter_empty_conv dest: placeholder_version)

lemma placeholder_sorted [simp]:
  "sort_key number (placeholder_pages b v l n) = placeholder_pages b v l n"
  by (rule sort_key_id_if_sorted) simp

text \<open>version bump\<close>

lemma version_bump_proj:
  assumes "version_bump s doc c = (nv, s1)"
  shows "versions s1 = versions s @ [nv]"
    and "pages s1 = pages s @ placeholder_pages (fresh (map page_pk (pages s))) (version_pk nv)
                               (version_lang nv) (page_count nv)"
    and "payloads s1 = payloads s" and "artifacts s1 = artifacts s"
    and "documents s1 = documents s" and "folders s1 = folders s"
    and "version_pk nv = fresh (map version_pk (versions s))"
    and "version_document nv = doc"
    and "version_text nv = []"
  using assms by (auto simp: version_bump_def Let_def)

lemma version_bump_count_Some:
  "version_bump s doc (Some c) = (nv, s1) \<Longrightarrow> page_count nv = c"
  by (auto simp: version_bump_def Let_def)

lemma version_bump_count_None:
  "version_bump s doc None = (nv, s1) \<Longrightarrow> last_version s doc = Some l \<Longrightarrow> page_count nv = page_count l"
  by (auto simp: version_bump_def Let_def)

lemma version_pages_append_new:
  assumes "pages s1 = pages s @ placeholder_pages b nv l n"
    and "list_all (\<lambda>p. page_version p \<noteq> nv) (pages s)"
  shows "version_pages s1 nv = placeholder_pages b nv l n"
proof -
  have "filter (\<lambda>p. page_version p = nv) (pages s) = []"
    using assms(2) by (auto simp: filter_empty_conv list_all_iff)
  then show ?thesis
    using assms(1) by (simp add: version_pages_def)
qed

lemma version_pages_append_old:
  assumes "pages s1 = pages s @ placeholder_pages b nv l n" and "v \<noteq> nv"
  shows "version_pages s1 v = version_pages s v"
  using assms by (simp add: version_pages_def)

lemma wf_state_no_fresh:
  assumes "wf_state s"
  shows "list_all (\<lambda>p. page_version p \<noteq> fresh (map version_pk (versions s))) (pages s)"
proof -
  have "page_version p \<noteq> fresh (map version_pk (versions s))" if "p \<in> set (pages s)" for p
  proof -
    have "page_version p \<in> set (map version_pk (versions s))"
      using assms that by (simp add: wf_state_def list_all_iff)
    then show ?thesis
      using fresh_notin[of "map version_pk (versions s)"] by metis
  qed
  then show ?thesis by (simp add: list_all_iff)
qed

lemma last_version_alt:
  "last_version s d =
     (if document_versions s d = [] then None else Some (last (document_versions s d)))"
  by (simp add: last_version_def split: list.splits)

lemma last_version_append_same:
  "versions s1 = versions s @ [nv] \<Longrightarrow> last_version s1 (version_document nv) = Some nv"
  by (simp add: last_version_alt document_versions_def)

lemma last_version_append_other:
  "versions s1 = versions s @ [nv] \<Longrightarrow> d \<noteq> version_document nv \<Longrightarrow> last_version s1 d = last_version s d"
  by (simp add: last_version_alt document_versions_def)

lemma find_append_list:
  "find P (xs @ ys) = (case find P xs of None \<Rightarrow> find P ys | Some x \<Rightarrow> Some x)"
  by (induction xs) simp_all

lemma get_version_append_old:
  "versions s1 = versions s @ [nv] \<Longrightarrow> v \<in> set (map version_pk (versions s)) \<Longrightarrow>
   get_version s1 v = get_version s v"
  by (auto simp: get_version_def find_append_list find_None_iff split: option.splits)


section \<open>Text replication\<close>

text \<open>update_text_field\<close>

lemma update_text_field_proj [simp]:
  "payloads (update_text_field s v st) = payloads s"
  "artifacts (update_text_field s v st) = artifacts s"
  "documents (update_text_field s v st) = documents s"
  "folders (update_text_field s v st) = folders s"
  by (simp_all add: update_text_field_def Let_def)

lemma assign_text_keeps [simp]:
  "page_version (assign_text as p) = page_version p"
  "number (assign_text as p) = number p"
  "page_pk (assign_text as p) = page_pk p"
  by (simp_all add: assign_text_def split: option.splits)

lemma update_text_field_pages:
  "pages (update_text_field s v st)
     = map (assign_text (zip (map page_pk (version_pages s v)) st)) (pages s)"
  by (simp add: update_text_field_def Let_def)

lemma update_text_field_versions:
  "versions (update_text_field s v st)
     = map (assign_version_text v (join_space (map snd (zip (map page_pk (version_pages s v)) st))))
         (versions s)"
  by (simp add: update_text_field_def Let_def)

lemma version_pages_update_text_field:
  "version_pages (update_text_field s v st) w
     = map (assign_text (zip (map page_pk (version_pages s v)) st)) (version_pages s w)"
  by (simp add: version_pages_def update_text_field_pages filter_map_commute
      sort_key_map_commute)

lemma assign_text_zip:
  assumes "distinct (map page_pk ps)" and "length st = length ps"
  shows "map (assign_text (zip (map page_pk ps) st)) ps
           = map2 (\<lambda>p t. p\<lparr>page_text := t\<rparr>) ps st"
proof (rule nth_equalityI)
  show "length (map (assign_text (zip (map page_pk ps) st)) ps)
          = length (map2 (\<lambda>p t. p\<lparr>page_text := t\<rparr>) ps st)"
    using assms(2) by simp
next
  fix i assume "i < length (map (assign_text (zip (map page_pk ps) st)) ps)"
  then have i: "i < length ps" by simp
  have "map_of (zip (map page_pk ps) st) (map page_pk ps ! i) = Some (st ! i)"
    by (rule map_of_zip_nth) (use assms i in simp_all)
  then have "map_of (zip (map page_pk ps) st) (page_pk (ps ! i)) = Some (st ! i)"
    using i by simp
  then show "map (assign_text (zip (map page_pk ps) st)) ps ! i
               = map2 (\<lambda>p t. p\<lparr>page_text := t\<rparr>) ps st ! i"
    using i assms(2) by (simp add: assign_text_def)
qed

lemma assign_text_other:
  assumes "\<forall>p \<in> set ps. page_pk p \<notin> set ks"
  shows "map (assign_text (zip ks st)) ps = ps"
proof -
  have "assign_text (zip ks st) p = p" if "p \<in> set ps" for p
  proof -
    have "page_pk p \<notin> fst ` set (zip ks st)"
    proof
      assume "page_pk p \<in> fst ` set (zip ks st)"
      then obtain t where "(page_pk p, t) \<in> set (zip ks st)" by auto
      then have "page_pk p \<in> set ks" by (rule set_zip_leftD)
      then show False using assms that by blast
    qed
    then have "map_of (zip ks st) (page_pk p) = None"
      by (simp add: map_of_eq_None_iff)
    then show ?thesis by (simp add: assign_text_def)
  qed
  then show ?thesis by (simp add: map_idI)
qed

lemma map2_set_text:
  "length st = length ps \<Longrightarrow> map page_text (map2 (\<lambda>p t. p\<lparr>page_text := t\<rparr>) ps st) = st"
  "length st = length ps \<Longrightarrow> map number (map2 (\<lambda>p t. p\<lparr>page_text := t\<rparr>) ps st) = map number ps"
proof -
  assume l: "length st = length ps"
  show "map page_text (map2 (\<lambda>p t. p\<lparr>page_text := t\<rparr>) ps st) = st"
    using l by (induction ps st rule: list_induct2') simp_all
  show "map number (map2 (\<lambda>p t. p\<lparr>page_text := t\<rparr>) ps st) = map number ps"
    using l by (induction ps st rule: list_induct2') simp_all
qed

text \<open>collect_text_streams\<close>

lemma pages_map_lookup:
  assumes "map number pl = [1..n]" and "1 \<le> k" and "k \<le> n"
  shows "map_of (rev (map (\<lambda>p. (number p, p)) pl)) k = Some (pl ! nat (k - 1))"
proof -
  have len: "length pl = nat n"
    using arg_cong[OF assms(1), of length] by simp
  have i: "nat (k - 1) < length pl" using assms(2,3) len by simp
  have "number (pl ! nat (k - 1)) = [1..n] ! nat (k - 1)"
    using i assms(1) by (metis nth_map)
  also have "\<dots> = k" using assms(2,3) by simp
  finally have num: "number (pl ! nat (k - 1)) = k" .
  have "pl ! nat (k - 1) \<in> set pl" using i by simp
  then have "(number (pl ! nat (k - 1)), pl ! nat (k - 1)) \<in> (\<lambda>p. (number p, p)) ` set pl"
    by (rule imageI)
  then have "(k, pl ! nat (k - 1)) \<in> set (rev (map (\<lambda>p. (number p, p)) pl))"
    using num by simp
  moreover have "distinct (map fst (rev (map (\<lambda>p. (number p, p)) pl)))"
    using assms(1) by (simp add: rev_map[symmetric] comp_def)
  ultimately show ?thesis by (rule map_of_is_SomeI[rotated])
qed

lemma collect_loop_all:
  "\<forall>k \<in> set ks. \<exists>p. m k = Some p \<Longrightarrow> collect_loop m ks = Inr (map (\<lambda>k. page_text (the (m k))) ks)"
  by (induction ks) auto

lemma collect_text_streams_ok:
  assumes "map number (version_pages s v) = [1..n]" and "\<forall>k \<in> set ks. 1 \<le> k \<and> k \<le> n"
  shows "collect_text_streams s v ks = Inr (map (text_at s v) ks)"
proof -
  let ?m = "map_of (rev (map (\<lambda>p. (number p, p)) (version_pages s v)))"
  have look: "?m k = Some (version_pages s v ! nat (k - 1))" if "k \<in> set ks" for k
    using pages_map_lookup[OF assms(1)] assms(2) that by simp
  then have "collect_loop ?m ks = Inr (map (\<lambda>k. page_text (the (?m k))) ks)"
    by (intro collect_loop_all) simp
  also have "map (\<lambda>k. page_text (the (?m k))) ks = map (text_at s v) ks"
    by (rule map_cong) (simp_all add: look text_at_def)
  finally show ?thesis by (simp add: collect_text_streams_def)
qed

text \<open>survivors\<close>

lemma survivors_range: "k \<in> set (survivors n ds) \<Longrightarrow> 1 \<le> k \<and> k \<le> n"
  by (auto simp: survivors_def)

lemma survivors_length:
  assumes "distinct ds" and "\<forall>d \<in> set ds. 1 \<le> d \<and> d \<le> n"
  shows "length (survivors n ds) + length ds = nat n"
proof -
  have "length (filter (\<lambda>k. k \<in> set ds) [1..n]) = card ({k. k \<in> set ds} \<inter> set [1..n])"
    by (rule distinct_length_filter) simp
  also have "{k. k \<in> set ds} \<inter> set [1..n] = set ds"
    using assms(2) by auto
  also have "card (set ds) = length ds"
    using assms(1) by (rule distinct_card)
  finally have in_len: "length (filter (\<lambda>k. k \<in> set ds) [1..n]) = length ds" .
  have "length (filter (\<lambda>k. k \<in> set ds) [1..n]) + length (filter (\<lambda>k. \<not> k \<in> set ds) [1..n])
          = length [1..n]"
    by (rule sum_length_filter_compl)
  then show ?thesis
    using in_len by (simp add: survivors_def)
qed

lemma get_assigns_after_delete_snd [simp]:
  "map snd (get_assigns_after_delete n ds) = survivors n ds"
  by (simp add: get_assigns_after_delete_def)

text \<open>the selection\<close>

lemma selection_numbers:
  assumes "list_all (\<lambda>p. page_version p = v) (pages_filter_pk s ids)"
    and "map number (version_pages s v) = [1..n]"
  shows "sorted (map number (pages_filter_pk s ids))"
    and "distinct (map number (pages_filter_pk s ids))"
    and "\<forall>k \<in> set (map number (pages_filter_pk s ids)). 1 \<le> k \<and> k \<le> n"
proof -
  let ?P = "\<lambda>p. page_pk p \<in> set ids" and ?Q = "\<lambda>p. page_version p = v"
  show "sorted (map number (pages_filter_pk s ids))"
    by (simp add: pages_filter_pk_def)
  have all: "\<forall>p \<in> set (filter ?P (pages s)). ?Q p"
    using assms(1) by (simp add: pages_filter_pk_def list_all_iff)
  then have eq: "filter ?P (pages s) = filter ?P (filter ?Q (pages s))"
    by (auto intro: filter_cong)
  have d0: "distinct (map number (sort_key number (filter ?Q (pages s))))"
    using assms(2) by (simp add: version_pages_def)
  have d1: "distinct (map number (filter ?Q (pages s)))"
    using d0 by (simp add: distinct_map)
  have "distinct (map number (filter ?P (filter ?Q (pages s))))"
    using d1 by (rule distinct_map_filter)
  then have "distinct (map number (sort_key number (filter ?P (pages s))))"
    using eq by (simp add: distinct_map)
  then show "distinct (map number (pages_filter_pk s ids))"
    by (simp add: pages_filter_pk_def)
  have "set (pages_filter_pk s ids) \<subseteq> set (version_pages s v)"
    using all by (auto simp: pages_filter_pk_def version_pages_def)
  then have "set (map number (pages_filter_pk s ids)) \<subseteq> set (map number (version_pages s v))"
    by auto
  then show "\<forall>k \<in> set (map number (pages_filter_pk s ids)). 1 \<le> k \<and> k \<le> n"
    using assms(2) by auto
qed

section \<open>The delete flow\<close>

lemma version_pages_map_assign:
  "pages s' = map (assign_text as) (pages s) \<Longrightarrow>
   version_pages s' w = map (assign_text as) (version_pages s w)"
  by (simp add: version_pages_def filter_map_commute sort_key_map_commute)

lemma assign_version_text_old:
  "\<forall>w \<in> set vs. version_pk w \<noteq> v \<Longrightarrow> map (assign_version_text v t) vs = vs"
  by (simp add: assign_version_text_def map_idI)

lemma text_at_cong: "pages s' = pages s \<Longrightarrow> text_at s' v = text_at s v"
  by (simp add: text_at_def version_pages_def fun_eq_iff)

lemma delete_flow_ok:
  assumes pl: "payloads s1 (version_pk ov) = Some pdf"
    and len: "int (length pdf) = page_count ov"
    and nums: "map number (version_pages s1 (version_pk ov)) = [1..page_count ov]"
    and srt: "sorted (map number ps)"
    and dst: "distinct (map number ps)"
    and rng: "\<forall>k \<in> set (map number ps). 1 \<le> k \<and> k \<le> page_count ov"
  shows "\<exists>s4. delete_flow s1 ov nv ps = (None, s4)
           \<and> payloads s4 = (payloads s1)(version_pk nv \<mapsto>
                 map (\<lambda>n. pdf ! nat (n - 1)) (survivors (page_count ov) (map number ps)))
           \<and> pages s4 = map (assign_text (zip (map page_pk (version_pages s1 (version_pk nv)))
                                  (map (text_at s1 (version_pk ov))
                                     (survivors (page_count ov) (map number ps)))))
                           (pages s1)
           \<and> versions s4 = map (assign_version_text (version_pk nv)
                                  (join_space (map snd
                                     (zip (map page_pk (version_pages s1 (version_pk nv)))
                                        (map (text_at s1 (version_pk ov))
                                           (survivors (page_count ov) (map number ps)))))))
                              (versions s1)
           \<and> documents s4 = documents s1 \<and> folders s4 = folders s1"
proof -
  let ?surv = "survivors (page_count ov) (map number ps)"
  let ?s2 = "s1\<lparr>payloads := (payloads s1)(version_pk nv \<mapsto> map (\<lambda>n. pdf ! nat (n - 1)) ?surv)\<rparr>"
  let ?pm = "get_assigns_after_delete (page_count ov) (map number ps)"
  let ?s3 = "reuse_ocr_data ?s2 (version_pk ov) (version_pk nv) ?pm"
  have "remove_loop pdf (map number ps) 0
          = Inr (map (\<lambda>n. pdf ! nat (n - 1)) (survivors (int (length pdf)) (map number ps)))"
    using srt dst rng len by (intro remove_loop_survivors) simp_all
  then have rem: "remove_pdf_pages s1 (version_pk ov) (version_pk nv) ps = (None, ?s2)"
    using pl len by (simp add: remove_pdf_pages_def)
  have pg3: "pages ?s3 = pages s1" by simp
  have "collect_text_streams ?s3 (version_pk ov) ?surv
          = collect_text_streams s1 (version_pk ov) ?surv"
    using pg3 by (rule collect_text_streams_cong)
  also have "\<dots> = Inr (map (text_at s1 (version_pk ov)) ?surv)"
    using nums by (rule collect_text_streams_ok) (simp add: survivors_range)
  finally have col: "collect_text_streams ?s3 (version_pk ov) (map snd ?pm)
          = Inr (map (text_at s1 (version_pk ov)) ?surv)"
    by simp
  have vp3: "version_pages ?s3 (version_pk nv) = version_pages s1 (version_pk nv)"
    using pg3 by (rule version_pages_cong)
  let ?s4 = "update_text_field ?s3 (version_pk nv) (map (text_at s1 (version_pk ov)) ?surv)"
  have flow: "delete_flow s1 ov nv ps = (None, ?s4)"
    using rem col by (simp add: delete_flow_def and_then_def reuse_text_field_def Let_def)
  have "payloads ?s4 = (payloads s1)(version_pk nv \<mapsto> map (\<lambda>n. pdf ! nat (n - 1)) ?surv)"
    by simp
  moreover have "pages ?s4 = map (assign_text (zip (map page_pk (version_pages s1 (version_pk nv)))
                                  (map (text_at s1 (version_pk ov)) ?surv))) (pages s1)"
    by (simp add: update_text_field_pages vp3)
  moreover have "versions ?s4 = map (assign_version_text (version_pk nv)
                                  (join_space (map snd
                                     (zip (map page_pk (version_pages s1 (version_pk nv)))
                                        (map (text_at s1 (version_pk ov)) ?surv)))))
                              (versions s1)"
    by (simp add: update_text_field_versions vp3)
  moreover have "documents ?s4 = documents s1" "folders ?s4 = folders s1" by simp_all
  ultimately show ?thesis using flow by blast
qed

lemma current_selection_not_archived:
  assumes "current_selection s ps ov pdf"
  shows "list_ex (is_archived s) ps = False"
proof -
  have "\<not> is_archived s p" if "p \<in> set ps" for p
  proof -
    have "page_version p = version_pk ov"
      using assms that by (simp add: current_selection_def list_all_iff)
    then show ?thesis
      using assms by (simp add: is_archived_def current_selection_def)
  qed
  then show ?thesis by (simp add: list_ex_iff)
qed

lemma current_selection_first:
  assumes "current_selection s ps ov pdf"
  shows "\<exists>fp. first ps = Some fp \<and> page_version fp = version_pk ov \<and> fp \<in> set ps"
  using assms by (cases ps) (simp_all add: current_selection_def first_def)

lemma version_in_table:
  "get_version s v = Some ov \<Longrightarrow> v \<in> set (map version_pk (versions s))"
  by (auto simp: get_version_def find_Some_iff)

text \<open>The state after a bump: the old version reads as before, the new one has its placeholders.\<close>

lemma version_bump_reads:
  assumes wf: "wf_state s" and bump: "version_bump s doc c = (nv, s1)"
  shows "version_pages s1 (version_pk nv)
           = placeholder_pages (fresh (map page_pk (pages s))) (version_pk nv) (version_lang nv)
               (page_count nv)"
    and "v \<in> set (map version_pk (versions s)) \<Longrightarrow> version_pages s1 v = version_pages s v"
    and "v \<in> set (map version_pk (versions s)) \<Longrightarrow> v \<noteq> version_pk nv"
proof -
  note pr = version_bump_proj[OF bump]
  show "version_pages s1 (version_pk nv)
           = placeholder_pages (fresh (map page_pk (pages s))) (version_pk nv) (version_lang nv)
               (page_count nv)"
    using pr(2) wf_state_no_fresh[OF wf] by (intro version_pages_append_new) (simp_all add: pr(7))
  show ne: "v \<noteq> version_pk nv" if "v \<in> set (map version_pk (versions s))"
    using that fresh_notin[of "map version_pk (versions s)"] pr(7) by metis
  show "version_pages s1 v = version_pages s v" if "v \<in> set (map version_pk (versions s))"
    using pr(2) ne[OF that] by (rule version_pages_append_old)
qed

lemma delete_flow_new_pages:
  assumes pg: "pages s4 = map (assign_text (zip (map page_pk (version_pages s1 nvk)) texts)) (pages s1)"
    and ph: "version_pages s1 nvk = placeholder_pages b nvk l c"
    and ln: "length texts = nat c"
  shows "map number (version_pages s4 nvk) = [1..c]"
    and "map page_text (version_pages s4 nvk) = texts"
proof -
  have "version_pages s4 nvk
          = map (assign_text (zip (map page_pk (placeholder_pages b nvk l c)) texts))
              (placeholder_pages b nvk l c)"
    using version_pages_map_assign[OF pg, of nvk] ph by simp
  also have "\<dots> = map2 (\<lambda>p t. p\<lparr>page_text := t\<rparr>) (placeholder_pages b nvk l c) texts"
    by (rule assign_text_zip) (simp_all add: placeholder_pk_distinct ln)
  finally have eq: "version_pages s4 nvk
      = map2 (\<lambda>p t. p\<lparr>page_text := t\<rparr>) (placeholder_pages b nvk l c) texts" .
  show "map number (version_pages s4 nvk) = [1..c]"
    unfolding eq using map2_set_text(2)[of texts "placeholder_pages b nvk l c"] ln by simp
  show "map page_text (version_pages s4 nvk) = texts"
    unfolding eq using map2_set_text(1)[of texts "placeholder_pages b nvk l c"] ln by simp
qed

lemma fresh_pk_ne: "w \<in> set xs \<Longrightarrow> f w \<noteq> fresh (map f xs)"
proof -
  assume "w \<in> set xs"
  then have "f w \<in> set (map f xs)" by simp
  then have "f w < fresh (map f xs)" by (rule fresh_gt)
  then show ?thesis by simp
qed

lemma versions_after_text:
  assumes vs: "versions s4 = map (assign_version_text (version_pk nv) t) (versions s1)"
    and ap: "versions s1 = versions s @ [nv]"
    and fr: "version_pk nv = fresh (map version_pk (versions s))"
  shows "versions s4 = versions s @ [nv\<lparr>version_text := t\<rparr>]"
proof -
  have "\<forall>w \<in> set (versions s). version_pk w \<noteq> version_pk nv"
    unfolding fr by (intro ballI fresh_pk_ne)
  then have "map (assign_version_text (version_pk nv) t) (versions s) = versions s"
    by (rule assign_version_text_old)
  then show ?thesis
    using vs ap by (simp add: assign_version_text_def)
qed

lemma map_snd_zip_eq: "length xs = length ys \<Longrightarrow> map snd (zip xs ys) = ys"
  by (induction xs ys rule: list_induct2) simp_all

text \<open>
  C4. For every delete, through the multi-page endpoint, of a non-empty selection of
  pages of the current version that leaves at least one page: \<open>delete_pages\<close> raises
  nothing; the document's new current version is a new row whose page_count is the old
  page_count minus the number of deleted pages; its payload holds exactly that many
  pages, namely the old payload's pages at the surviving numbers; its pages are numbered
  from 1 to the new page_count; the text of its i-th page is the unchanged text of the
  i-th surviving page of the old version; and its aggregate text is these texts joined
  by single spaces. The witness is the scenario of the claim: pages "page 1", "page 2",
  "page 3", delete pages 1 and 2.
\<close>

theorem delete_pages_new_version:
  assumes wf: "wf_state s"
    and sel: "current_selection s (pages_filter_pk s page_ids) ov pdf"
    and some_left: "length (pages_filter_pk s page_ids) < length (version_pages s (version_pk ov))"
  shows "case delete_pages s page_ids of
           (e, s') \<Rightarrow>
             e = None \<and>
             (case last_version s' (version_document ov) of
                None \<Rightarrow> False
              | Some nv \<Rightarrow>
                  (let ps = pages_filter_pk s page_ids;
                       surv = survivors (page_count ov) (map number ps)
                   in version_pk nv \<notin> set (map version_pk (versions s))
                      \<and> page_count nv = page_count ov - int (length ps)
                      \<and> payloads s' (version_pk nv) = Some (map (\<lambda>n. pdf ! nat (n - 1)) surv)
                      \<and> int (length surv) = page_count nv
                      \<and> map number (version_pages s' (version_pk nv)) = [1..page_count nv]
                      \<and> map page_text (version_pages s' (version_pk nv))
                          = map (text_at s (version_pk ov)) surv
                      \<and> version_text nv = join_space (map (text_at s (version_pk ov)) surv)))"
proof -
  let ?ps = "pages_filter_pk s page_ids"
  let ?ovk = "version_pk ov"
  let ?surv = "survivors (page_count ov) (map number ?ps)"
  let ?texts = "map (text_at s ?ovk) ?surv"
  have all_v: "list_all (\<lambda>p. page_version p = ?ovk) ?ps"
    and gv: "get_version s ?ovk = Some ov"
    and lv: "last_version s (version_document ov) = Some ov"
    and nums: "map number (version_pages s ?ovk) = [1..page_count ov]"
    and pl: "payloads s ?ovk = Some pdf"
    and len: "int (length pdf) = page_count ov"
    using sel by (simp_all add: current_selection_def)
  obtain fp where fp: "first ?ps = Some fp" "page_version fp = ?ovk"
    using current_selection_first[OF sel] by blast
  have na: "list_ex (is_archived s) ?ps = False"
    using sel by (rule current_selection_not_archived)
  obtain nv s1 where bump:
    "version_bump s (version_document ov) (Some (page_count ov - int (length ?ps))) = (nv, s1)"
    by (cases "version_bump s (version_document ov) (Some (page_count ov - int (length ?ps)))")
  note pr = version_bump_proj[OF bump]
  have cnt: "page_count nv = page_count ov - int (length ?ps)"
    using bump by (rule version_bump_count_Some)
  have in_tab: "?ovk \<in> set (map version_pk (versions s))"
    using gv by (rule version_in_table)
  note rd = version_bump_reads[OF wf bump]
  have vp_old: "version_pages s1 ?ovk = version_pages s ?ovk" using rd(2)[OF in_tab] .
  have sn: "sorted (map number ?ps)" "distinct (map number ?ps)"
    "\<forall>k \<in> set (map number ?ps). 1 \<le> k \<and> k \<le> page_count ov"
    using selection_numbers[OF all_v nums] by blast+
  obtain s4 where flow: "delete_flow s1 ov nv ?ps = (None, s4)"
    and pay4: "payloads s4 = (payloads s1)(version_pk nv \<mapsto> map (\<lambda>n. pdf ! nat (n - 1)) ?surv)"
    and pg4: "pages s4 = map (assign_text (zip (map page_pk (version_pages s1 (version_pk nv)))
                                  (map (text_at s1 ?ovk) ?surv))) (pages s1)"
    and vs4: "versions s4 = map (assign_version_text (version_pk nv)
                                  (join_space (map snd
                                     (zip (map page_pk (version_pages s1 (version_pk nv)))
                                        (map (text_at s1 ?ovk) ?surv))))) (versions s1)"
    using delete_flow_ok[of s1 ov pdf ?ps nv] pl len nums sn pr(3) vp_old by auto
  have ta: "text_at s1 ?ovk = text_at s ?ovk"
    using vp_old by (simp add: text_at_def fun_eq_iff)
  have sl: "length ?surv + length (map number ?ps) = nat (page_count ov)"
    using sn(2,3) by (rule survivors_length)
  have surv_len: "int (length ?surv) = page_count nv"
    using sl cnt len by simp
  have tl: "length ?texts = nat (page_count nv)" by (simp add: surv_len[symmetric])
  have run: "delete_pages s page_ids = (None, s4)"
    using na fp gv some_left bump flow by (simp add: delete_pages_def Let_def)
  have np: "map number (version_pages s4 (version_pk nv)) = [1..page_count nv]"
    "map page_text (version_pages s4 (version_pk nv)) = ?texts"
    using delete_flow_new_pages[OF _ rd(1) tl] pg4 ta by simp_all
  have zl: "map snd (zip (map page_pk (version_pages s1 (version_pk nv))) ?texts) = ?texts"
    by (rule map_snd_zip_eq) (simp add: rd(1) surv_len[symmetric])
  have vs4': "versions s4
      = map (assign_version_text (version_pk nv) (join_space ?texts)) (versions s1)"
    using vs4 ta zl by simp
  have vs: "versions s4 = versions s @ [nv\<lparr>version_text := join_space ?texts\<rparr>]"
    by (rule versions_after_text[OF vs4' pr(1) pr(7)])
  have last4: "last_version s4 (version_document ov) = Some (nv\<lparr>version_text := join_space ?texts\<rparr>)"
    using last_version_append_same[OF vs] pr(8) by simp
  have newk: "version_pk nv \<notin> set (map version_pk (versions s))"
    using pr(7) fresh_notin[of "map version_pk (versions s)"] by simp
  show ?thesis
    using run last4 newk cnt pay4 surv_len np by (simp add: Let_def)
qed

theorem delete_pages_new_version_witness:
  "case delete_pages three_pages_state [1, 2] of
     (e, s') \<Rightarrow>
       e = None \<and>
       (case last_version s' 1 of
          None \<Rightarrow> False
        | Some nv \<Rightarrow>
            page_count nv = 1
            \<and> payloads s' (version_pk nv) = Some [mk_pdf_page 3]
            \<and> map number (version_pages s' (version_pk nv)) = [1]
            \<and> map page_text (version_pages s' (version_pk nv)) = [''page 3'']
            \<and> version_text nv = ''page 3'')"
proof -
  let ?ov = "\<lparr>version_pk = 1, version_document = 1, version_number = 1, page_count = 3,
              version_text = [], version_lang = ''deu''\<rparr>"
  let ?pdf = "[mk_pdf_page 1, mk_pdf_page 2, mk_pdf_page 3]"
  have h1: "wf_state three_pages_state" by code_simp
  have h2: "current_selection three_pages_state (pages_filter_pk three_pages_state [1, 2])
              ?ov ?pdf"
    by code_simp
  have h3: "length (pages_filter_pk three_pages_state [1, 2])
              < length (version_pages three_pages_state (version_pk ?ov))"
    by code_simp
  have e1: "survivors (page_count ?ov) (map number (pages_filter_pk three_pages_state [1, 2]))
              = [3]"
    by code_simp
  have e2: "text_at three_pages_state (Suc 0) 3 = ''page 3''" by code_simp
  have e3: "?pdf ! nat (3 - 1) = mk_pdf_page 3" by code_simp
  have e4: "page_count ?ov - int (length (pages_filter_pk three_pages_state [1, 2])) = 1"
    by code_simp
  show ?thesis
    using delete_pages_new_version[OF h1 h2 h3]
    unfolding Let_def e1 e4
    by (auto simp: e2 e3 split: prod.splits option.splits)
qed

section \<open>Existing versions are never written\<close>

lemma stable_refl: "wf_state s \<Longrightarrow> stable (set (map version_pk (versions s))) s s"
  by (simp add: stable_def)

lemma stable_intact:
  "stable (set (map version_pk (versions s))) s s' \<Longrightarrow> archived_intact s s'"
  by (simp add: stable_def archived_intact_def list_all_iff)

lemma stable_same_tables:
  assumes "stable V s0 s" and "pages s' = pages s" and "versions s' = versions s"
    and "\<forall>v \<in> V. payloads s' v = payloads s v"
  shows "stable V s0 s'"
  using assms
  by (simp add: stable_def wf_state_def version_pages_def get_version_def)

lemma stable_payload:
  assumes "stable V s0 s" and "t \<notin> V"
  shows "stable V s0 (s\<lparr>payloads := (payloads s)(t \<mapsto> x)\<rparr>)"
  using assms(1) by (rule stable_same_tables) (use assms(2) in auto)

lemma stable_copy_page:
  assumes "stable V s0 s" shows "stable V s0 (copy_page s a b)"
  using assms by (rule stable_same_tables) simp_all

lemma stable_reuse_ocr_data:
  assumes "stable V s0 s" shows "stable V s0 (reuse_ocr_data s ov nv pm)"
  using assms by (rule stable_same_tables) simp_all

lemma stable_copy_pages_data:
  assumes "stable V s0 s" shows "stable V s0 (copy_pages_data s ov nv pm)"
  using assms by (rule stable_same_tables) simp_all

lemma stable_copy_page_pairs:
  assumes "stable V s0 s" shows "stable V s0 (copy_page_pairs s prs)"
  using assms by (rule stable_same_tables) simp_all

lemma stable_create_document:
  assumes "stable V s0 s" and "create_document s t l u f st = (d, s1)"
  shows "stable V s0 s1"
  using assms(1) by (rule stable_same_tables) (use assms(2) in \<open>auto simp: create_document_def Let_def\<close>)

text \<open>bump\<close>

lemma wf_state_bump:
  assumes wf: "wf_state s" and bump: "version_bump s doc c = (nv, s1)"
  shows "wf_state s1"
proof -
  note pr = version_bump_proj[OF bump]
  let ?b = "fresh (map page_pk (pages s))"
  let ?new = "placeholder_pages ?b (version_pk nv) (version_lang nv) (page_count nv)"
  have d_old: "distinct (map page_pk (pages s))" using wf by (simp add: wf_state_def)
  have disj: "set (map page_pk (pages s)) \<inter> set (map page_pk ?new) = {}"
  proof -
    have "x < ?b" if "x \<in> set (map page_pk (pages s))" for x using that by (rule fresh_gt)
    moreover have "?b \<le> x" if "x \<in> set (map page_pk ?new)" for x
      using that placeholder_pk_ge by auto
    ultimately show ?thesis by fastforce
  qed
  have d: "distinct (map page_pk (pages s1))"
    using d_old placeholder_pk_distinct disj by (simp add: pr(2))
  have fk_old: "\<forall>p \<in> set (pages s). page_version p \<in> set (map version_pk (versions s1))"
    using wf by (auto simp: wf_state_def list_all_iff pr(1))
  have fk_new: "\<forall>p \<in> set ?new. page_version p \<in> set (map version_pk (versions s1))"
    by (auto simp: pr(1) dest: placeholder_version)
  show ?thesis
    using d fk_old fk_new by (auto simp: wf_state_def list_all_iff pr(2))
qed

lemma stable_bump:
  assumes st: "stable V s0 s" and bump: "version_bump s doc c = (nv, s1)"
  shows "stable V s0 s1" and "version_pk nv \<notin> V"
proof -
  note pr = version_bump_proj[OF bump]
  have wf: "wf_state s" and sub: "V \<subseteq> set (map version_pk (versions s))"
    using st by (simp_all add: stable_def)
  note rd = version_bump_reads[OF wf bump]
  show nin: "version_pk nv \<notin> V"
    using sub rd(3) by blast
  have "\<forall>v \<in> V. payloads s1 v = payloads s0 v \<and> version_pages s1 v = version_pages s0 v
            \<and> get_version s1 v = get_version s0 v"
  proof
    fix v assume v: "v \<in> V"
    then have vin: "v \<in> set (map version_pk (versions s))" using sub by blast
    have "get_version s1 v = get_version s v"
      using pr(1) vin by (rule get_version_append_old)
    then show "payloads s1 v = payloads s0 v \<and> version_pages s1 v = version_pages s0 v
            \<and> get_version s1 v = get_version s0 v"
      using st v rd(2)[OF vin] pr(3) by (simp add: stable_def)
  qed
  then show "stable V s0 s1"
    using wf_state_bump[OF wf bump] sub pr(1) by (auto simp: stable_def)
qed

text \<open>text update\<close>

lemma find_map_keep:
  assumes "\<And>w. P (g w) = P w" and "\<And>w. P w \<Longrightarrow> g w = w"
  shows "find P (map g xs) = find P xs"
  using assms by (induction xs) auto

lemma get_version_update_other:
  "v \<noteq> t \<Longrightarrow> get_version (update_text_field s t st) v = get_version s v"
  by (simp add: get_version_def update_text_field_versions)
     (rule find_map_keep; simp add: assign_version_text_def)

lemma version_pages_update_other:
  assumes wf: "wf_state s" and ne: "v \<noteq> t"
  shows "version_pages (update_text_field s t st) v = version_pages s v"
proof -
  have inj: "inj_on page_pk (set (pages s))"
    using wf by (simp add: wf_state_def distinct_map)
  have "\<forall>p \<in> set (version_pages s v). page_pk p \<notin> set (map page_pk (version_pages s t))"
  proof
    fix p assume p: "p \<in> set (version_pages s v)"
    show "page_pk p \<notin> set (map page_pk (version_pages s t))"
    proof
      assume "page_pk p \<in> set (map page_pk (version_pages s t))"
      then obtain q where q: "q \<in> set (version_pages s t)" "page_pk q = page_pk p" by auto
      have "p \<in> set (pages s)" "page_version p = v" using p by (auto simp: version_pages_def)
      moreover have "q \<in> set (pages s)" "page_version q = t" using q by (auto simp: version_pages_def)
      ultimately show False using inj q(2) ne by (auto dest: inj_onD)
    qed
  qed
  then show ?thesis
    by (simp add: version_pages_update_text_field assign_text_other)
qed

lemma wf_state_update_text_field: "wf_state s \<Longrightarrow> wf_state (update_text_field s t st)"
proof -
  assume wf: "wf_state s"
  have k: "map page_pk (map (assign_text as) ps) = map page_pk ps" for as ps by simp
  have vk: "map version_pk (map (assign_version_text t x) vs) = map version_pk vs" for x vs
    by (induction vs) (simp_all add: assign_version_text_def)
  show ?thesis
    using wf
    by (simp add: wf_state_def update_text_field_pages update_text_field_versions k vk
        list_all_iff del: map_map)
qed

lemma stable_update_text_field:
  assumes st: "stable V s0 s" and nin: "t \<notin> V"
  shows "stable V s0 (update_text_field s t st)"
proof -
  have wf: "wf_state s" using st by (simp add: stable_def)
  have vk: "map version_pk (map (assign_version_text t x) vs) = map version_pk vs" for x vs
    by (induction vs) (simp_all add: assign_version_text_def)
  have "\<forall>v \<in> V. payloads (update_text_field s t st) v = payloads s0 v
          \<and> version_pages (update_text_field s t st) v = version_pages s0 v
          \<and> get_version (update_text_field s t st) v = get_version s0 v"
  proof
    fix v assume v: "v \<in> V"
    then have ne: "v \<noteq> t" using nin by blast
    show "payloads (update_text_field s t st) v = payloads s0 v
          \<and> version_pages (update_text_field s t st) v = version_pages s0 v
          \<and> get_version (update_text_field s t st) v = get_version s0 v"
      using st v version_pages_update_other[OF wf ne] get_version_update_other[OF ne]
      by (simp add: stable_def)
  qed
  moreover have "V \<subseteq> set (map version_pk (versions (update_text_field s t st)))"
    using st by (simp add: stable_def update_text_field_versions vk del: map_map)
  ultimately show ?thesis
    using wf_state_update_text_field[OF wf] by (simp add: stable_def)
qed

lemma stable_and_then:
  assumes "stable V s0 (snd r)" and "\<And>s. stable V s0 s \<Longrightarrow> stable V s0 (snd (f s))"
  shows "stable V s0 (snd (and_then r f))"
  using assms by (cases r) (auto simp: and_then_def split: option.splits)

lemma stable_remove_pdf_pages:
  assumes "stable V s0 s" and "t \<notin> V"
  shows "stable V s0 (snd (remove_pdf_pages s ov t ps))"
  using assms by (auto simp: remove_pdf_pages_def intro: stable_payload split: option.splits sum.splits)

lemma stable_reorder_pdf_pages:
  assumes "stable V s0 s" and "t \<notin> V"
  shows "stable V s0 (snd (reorder_pdf_pages s ov t pd))"
  using assms by (auto simp: reorder_pdf_pages_def intro: stable_payload split: option.splits sum.splits)

lemma stable_rotate_pdf_pages:
  assumes "stable V s0 s" and "t \<notin> V"
  shows "stable V s0 (snd (rotate_pdf_pages s ov t pd))"
  using assms by (auto simp: rotate_pdf_pages_def intro: stable_payload split: option.splits sum.splits)

lemma stable_insert_pdf_pages:
  assumes "stable V s0 s" and "t \<notin> V"
  shows "stable V s0 (snd (insert_pdf_pages s sv dv t ns pos))"
  using assms by (auto simp: insert_pdf_pages_def intro: stable_payload split: option.splits sum.splits)

lemma stable_reuse_text_field:
  assumes "stable V s0 s" and "t \<notin> V"
  shows "stable V s0 (snd (reuse_text_field s ov t pm))"
  using assms
  by (auto simp: reuse_text_field_def intro: stable_update_text_field split: sum.splits)

lemma stable_reuse_text_field_multi:
  assumes "stable V s0 s" and "t \<notin> V"
  shows "stable V s0 (snd (reuse_text_field_multi s sv dv t pos ps))"
  using assms
  by (auto simp: reuse_text_field_multi_def Let_def intro: stable_update_text_field
      split: sum.splits)

lemma stable_delete_flow:
  assumes "stable V s0 s" and "version_pk nv \<notin> V"
  shows "stable V s0 (snd (delete_flow s ov nv ps))"
  unfolding delete_flow_def Let_def
  by (intro stable_and_then stable_remove_pdf_pages stable_reuse_text_field
      stable_reuse_ocr_data assms)

lemma stable_version_bump_from_pages:
  assumes "stable V s0 s" and "version_bump_from_pages s d ps = (r, s1)"
  shows "stable V s0 s1" and "r = Inr nv \<Longrightarrow> version_pk nv \<notin> V"
proof -
  show "stable V s0 s1"
  proof (cases "seed_pages s ps")
    case (Inl e)
    then show ?thesis using assms by (simp add: version_bump_from_pages_def)
  next
    case (Inr new_pdf)
    obtain nv' s' where b: "version_bump s d (Some (int (length ps))) = (nv', s')"
      by (cases "version_bump s d (Some (int (length ps)))")
    have "s1 = s'\<lparr>payloads := (payloads s')(version_pk nv' \<mapsto> new_pdf)\<rparr>"
      using assms(2) Inr b by (simp add: version_bump_from_pages_def)
    then show ?thesis
      using stable_payload[OF stable_bump[OF assms(1) b]] by simp
  qed
  show "version_pk nv \<notin> V" if "r = Inr nv"
  proof (cases "seed_pages s ps")
    case (Inl e)
    then show ?thesis using assms that by (simp add: version_bump_from_pages_def)
  next
    case (Inr new_pdf)
    obtain nv' s' where b: "version_bump s d (Some (int (length ps))) = (nv', s')"
      by (cases "version_bump s d (Some (int (length ps)))")
    have "nv = nv'"
      using assms(2) Inr b that by (simp add: version_bump_from_pages_def)
    then show ?thesis using stable_bump(2)[OF assms(1) b] by simp
  qed
qed

lemma stable_move_to_folder_multi_paged:
  assumes "stable V s0 s"
  shows "stable V s0 (snd (move_to_folder_multi_paged s ps fp dst_folder))"
proof -
  obtain d s1 where c: "create_document s ''noname.pdf'' (page_lang fp) (folder_user dst_folder)
             (folder_pk dst_folder) OCR_STATUS_SUCCEEDED = (d, s1)"
    by (cases "create_document s ''noname.pdf'' (page_lang fp) (folder_user dst_folder)
             (folder_pk dst_folder) OCR_STATUS_SUCCEEDED")
  have st1: "stable V s0 s1" using assms c by (rule stable_create_document)
  obtain r s2 where b: "version_bump_from_pages s1 (document_pk d) ps = (r, s2)"
    by (cases "version_bump_from_pages s1 (document_pk d) ps")
  note vb = stable_version_bump_from_pages[OF st1 b]
  show ?thesis
  proof (cases r)
    case (Inl e)
    then show ?thesis using c b vb(1) by (simp add: move_to_folder_multi_paged_def)
  next
    case (Inr dst_version)
    have "stable V s0 (snd (reuse_text_field
            (copy_page_pairs s2 (zip ps (version_pages s2 (version_pk dst_version))))
            (page_version fp) (version_pk dst_version)
            (zip [1..int (length ps)] (map number ps))))"
      by (intro stable_reuse_text_field stable_copy_page_pairs vb(1) vb(2)[OF Inr])
    then show ?thesis using c b Inr by (simp add: move_to_folder_multi_paged_def Let_def)
  qed
qed

lemma stable_move_to_folder_single_paged:
  assumes "stable V s0 s"
  shows "stable V s0 (snd (move_to_folder_single_paged s ps dst_folder))"
  using assms
proof (induction ps arbitrary: s)
  case Nil
  then show ?case by simp
next
  case (Cons p ps)
  obtain d s1 where c: "create_document s (''noname-'' @ str_of_nat (page_pk p) @ ''.pdf'')
             (page_lang p) (folder_user dst_folder) (folder_pk dst_folder) OCR_STATUS_SUCCEEDED
             = (d, s1)"
    by (cases "create_document s (''noname-'' @ str_of_nat (page_pk p) @ ''.pdf'')
             (page_lang p) (folder_user dst_folder) (folder_pk dst_folder) OCR_STATUS_SUCCEEDED")
  have st1: "stable V s0 s1" using Cons.prems c by (rule stable_create_document)
  obtain r s2 where b: "version_bump_from_pages s1 (document_pk d) [p] = (r, s2)"
    by (cases "version_bump_from_pages s1 (document_pk d) [p]")
  note vb = stable_version_bump_from_pages[OF st1 b]
  show ?case
  proof (cases r)
    case (Inl e)
    then show ?thesis using c b vb(1) by simp
  next
    case (Inr doc_version)
    show ?thesis
    proof (cases "first (version_pages s2 (version_pk doc_version))")
      case None
      then show ?thesis using c b Inr vb(1) by simp
    next
      case (Some dst_page)
      have "stable V s0 (snd (and_then
              (reuse_text_field (copy_page s2 (page_path p) (page_path dst_page))
                 (page_version p) (version_pk doc_version) [(1, number p)])
              (\<lambda>s4. move_to_folder_single_paged s4 ps dst_folder)))"
        by (intro stable_and_then stable_reuse_text_field stable_copy_page vb(1) vb(2)[OF Inr]
            Cons.IH)
      then show ?thesis using c b Inr Some by simp
    qed
  qed
qed

lemma stable_bumped_delete_flow:
  assumes "stable V s0 s"
  shows "stable V s0 (snd (case version_bump s d c of (nv, s1) \<Rightarrow> delete_flow s1 ov nv ps))"
proof -
  obtain nv s1 where b: "version_bump s d c = (nv, s1)" by (cases "version_bump s d c")
  show ?thesis
    using stable_delete_flow[OF stable_bump[OF assms b]] b by simp
qed

lemma stable_perform_destroy:
  assumes "stable V s0 s"
  shows "stable V s0 (snd (perform_destroy s instance))"
  using assms stable_bumped_delete_flow[OF assms]
  by (simp add: perform_destroy_def Let_def split: option.splits)

lemma stable_delete_pages:
  assumes "stable V s0 s"
  shows "stable V s0 (snd (delete_pages s page_ids))"
  using assms stable_bumped_delete_flow[OF assms]
  by (simp add: delete_pages_def Let_def split: option.splits)

lemma stable_reorder_pages:
  assumes "stable V s0 s"
  shows "stable V s0 (snd (reorder_pages g s pages_data))"
proof -
  have main: "stable V s0 (snd (case version_bump s d c of
      (new_version, s1) \<Rightarrow>
        (let pc = int (length (version_pages s1 ovk))
         in and_then (reorder_pdf_pages s1 ovk (version_pk new_version) pages_data)
              (\<lambda>s2. case g pages_data pc of
                       Inl e \<Rightarrow> (Some e, s2)
                     | Inr reordered_list \<Rightarrow>
                         (let page_map = zip [1..pc] reordered_list
                          in reuse_text_field
                               (reuse_ocr_data s2 ovk (version_pk new_version) page_map)
                               ovk (version_pk new_version) page_map)))))" for d c ovk
  proof -
    obtain nv s1 where b: "version_bump s d c = (nv, s1)" by (cases "version_bump s d c")
    note sb = stable_bump[OF assms b]
    have "stable V s0 (snd (and_then (reorder_pdf_pages s1 ovk (version_pk nv) pages_data)
              (\<lambda>s2. case g pages_data pc of
                       Inl e \<Rightarrow> (Some e, s2)
                     | Inr reordered_list \<Rightarrow>
                         (let page_map = zip [1..pc] reordered_list
                          in reuse_text_field
                               (reuse_ocr_data s2 ovk (version_pk nv) page_map)
                               ovk (version_pk nv) page_map))))" for pc
    proof (rule stable_and_then)
      show "stable V s0 (snd (reorder_pdf_pages s1 ovk (version_pk nv) pages_data))"
        using sb by (rule stable_reorder_pdf_pages)
    next
      fix s2 assume s2: "stable V s0 s2"
      show "stable V s0 (snd (case g pages_data pc of
                       Inl e \<Rightarrow> (Some e, s2)
                     | Inr reordered_list \<Rightarrow>
                         (let page_map = zip [1..pc] reordered_list
                          in reuse_text_field
                               (reuse_ocr_data s2 ovk (version_pk nv) page_map)
                               ovk (version_pk nv) page_map)))"
        using s2 sb(2)
        by (auto simp: Let_def split: sum.splits
            intro!: stable_reuse_text_field stable_reuse_ocr_data)
    qed
    then show ?thesis using b by (simp add: Let_def)
  qed
  show ?thesis
    using assms main by (simp add: reorder_pages_def split: option.splits)
qed

lemma stable_rotate_pages:
  assumes "stable V s0 s"
  shows "stable V s0 (snd (rotate_pages s pages_data))"
proof -
  have main: "stable V s0 (snd (case version_bump s d c of
      (new_version, s1) \<Rightarrow>
        and_then (rotate_pdf_pages s1 ovk (version_pk new_version) pd)
          (\<lambda>s2. let page_map = rotate_page_map s2 ovk
                in reuse_text_field s2 ovk (version_pk new_version) page_map)))" for d c ovk pd
  proof -
    obtain nv s1 where b: "version_bump s d c = (nv, s1)" by (cases "version_bump s d c")
    note sb = stable_bump[OF assms b]
    have "stable V s0 (snd (and_then (rotate_pdf_pages s1 ovk (version_pk nv) pd)
          (\<lambda>s2. let page_map = rotate_page_map s2 ovk
                in reuse_text_field s2 ovk (version_pk nv) page_map)))"
      unfolding Let_def
      by (intro stable_and_then stable_rotate_pdf_pages stable_reuse_text_field sb)
    then show ?thesis using b by simp
  qed
  show ?thesis
    using assms main by (simp add: rotate_pages_def Let_def split: option.splits)
qed

lemma stable_move_to_folder:
  assumes "stable V s0 s"
  shows "stable V s0 (snd (move_to_folder s user data))"
proof -
  have main: "stable V s0 (snd (case version_bump s d c of
      (src_new_version, s1) \<Rightarrow>
        and_then (delete_flow s1 ov src_new_version ps)
          (\<lambda>s2. if single_page data
                then move_to_folder_single_paged s2 ps dst_folder
                else move_to_folder_multi_paged s2 ps fp dst_folder)))" for d c ov ps fp dst_folder
  proof -
    obtain nv s1 where b: "version_bump s d c = (nv, s1)" by (cases "version_bump s d c")
    note sb = stable_bump[OF assms b]
    have "stable V s0 (snd (and_then (delete_flow s1 ov nv ps)
          (\<lambda>s2. if single_page data
                then move_to_folder_single_paged s2 ps dst_folder
                else move_to_folder_multi_paged s2 ps fp dst_folder)))"
    proof (rule stable_and_then)
      show "stable V s0 (snd (delete_flow s1 ov nv ps))"
        using sb by (rule stable_delete_flow)
    next
      fix s2 assume "stable V s0 s2"
      then show "stable V s0 (snd (if single_page data
                then move_to_folder_single_paged s2 ps dst_folder
                else move_to_folder_multi_paged s2 ps fp dst_folder))"
        by (simp add: stable_move_to_folder_single_paged stable_move_to_folder_multi_paged)
    qed
    then show ?thesis using b by simp
  qed
  show ?thesis
    using assms main by (simp add: move_to_folder_def Let_def split: option.splits)
qed

lemma stable_move_to_document:
  assumes "stable V s0 s"
  shows "stable V s0 (snd (move_to_document s user data))"
proof -
  have main: "stable V s0 (snd (case version_bump s d c of
      (src_new_version, s1) \<Rightarrow>
        (case dst_old of
           None \<Rightarrow> (Some AttributeError, s1)
         | Some dst_old_version \<Rightarrow>
             (case version_bump s1 dd
                     (Some (int (length (version_pages s1 (version_pk dst_old_version)))
                            + int (length ps))) of
                (dst_new_version, s2) \<Rightarrow>
                  and_then (delete_flow s2 ov src_new_version ps)
                    (\<lambda>s3. and_then
                            (insert_pdf_pages s3 (version_pk ov) (version_pk dst_old_version)
                               (version_pk dst_new_version) (map number ps) (position data))
                            (\<lambda>s4. reuse_text_field_multi
                                    (copy_pages_data s4 (version_pk dst_old_version)
                                       (version_pk dst_new_version)
                                       (map (\<lambda>p. (number p, number p + position data)) ps))
                                    (version_pk ov) (version_pk dst_old_version)
                                    (version_pk dst_new_version) (position data) ps))))))"
    for d c dst_old dd ov ps
  proof -
    obtain nv s1 where b: "version_bump s d c = (nv, s1)" by (cases "version_bump s d c")
    note sb = stable_bump[OF assms b]
    show ?thesis
    proof (cases dst_old)
      case None
      then show ?thesis using b sb(1) by simp
    next
      case (Some dov)
      obtain dnv s2 where b2: "version_bump s1 dd
                     (Some (int (length (version_pages s1 (version_pk dov)))
                            + int (length ps))) = (dnv, s2)"
        by (cases "version_bump s1 dd (Some (int (length (version_pages s1 (version_pk dov)))
                            + int (length ps)))")
      note sb2 = stable_bump[OF sb(1) b2]
      have "stable V s0 (snd (and_then (delete_flow s2 ov nv ps)
                    (\<lambda>s3. and_then
                            (insert_pdf_pages s3 (version_pk ov) (version_pk dov)
                               (version_pk dnv) (map number ps) (position data))
                            (\<lambda>s4. reuse_text_field_multi
                                    (copy_pages_data s4 (version_pk dov) (version_pk dnv)
                                       (map (\<lambda>p. (number p, number p + position data)) ps))
                                    (version_pk ov) (version_pk dov)
                                    (version_pk dnv) (position data) ps))))"
        by (intro stable_and_then stable_delete_flow stable_insert_pdf_pages
            stable_reuse_text_field_multi stable_copy_pages_data sb2 sb(2))
      then show ?thesis using b b2 Some by simp
    qed
  qed
  show ?thesis
    using assms
    by (auto simp: move_to_document_def Let_def split: option.splits intro!: main)
qed

lemma payload_written_only_at:
  "v \<noteq> t \<Longrightarrow> payloads (snd (remove_pdf_pages s ov t ps)) v = payloads s v"
  "v \<noteq> t \<Longrightarrow> payloads (snd (reorder_pdf_pages s ov t rd)) v = payloads s v"
  "v \<noteq> t \<Longrightarrow> payloads (snd (rotate_pdf_pages s ov t pd)) v = payloads s v"
  "v \<noteq> t \<Longrightarrow> payloads (snd (insert_pdf_pages s sv dv t ns pos)) v = payloads s v"
  by (auto simp: remove_pdf_pages_def reorder_pdf_pages_def rotate_pdf_pages_def
      insert_pdf_pages_def split: option.splits sum.splits)

text \<open>
  C6. In every well-formed store, whatever the request and whether the call ends normally
  or in an exception, each version that existed before the call has afterwards the same
  payload, the same pages and the same version row: this holds for \<open>version_bump\<close>
  and for every view (both delete endpoints, reorder, rotate, move to folder, move to
  document). Each editor transform reads the old version's payload and writes only the
  payload of the new version it is given: every other payload is as before.
\<close>

theorem archived_versions_intact:
  assumes "wf_state s"
  shows "archived_intact s (snd (version_bump s doc c))
       \<and> archived_intact s (snd (perform_destroy s deleted_page))
       \<and> archived_intact s (snd (delete_pages s page_ids))
       \<and> archived_intact s (snd (reorder_pages g s reorder_data))
       \<and> archived_intact s (snd (rotate_pages s rotate_data))
       \<and> archived_intact s (snd (move_to_folder s user folder_data))
       \<and> archived_intact s (snd (move_to_document s user document_data))
       \<and> (\<forall>v. v \<noteq> new_version \<longrightarrow>
              payloads (snd (remove_pdf_pages s old_version new_version ps)) v = payloads s v
            \<and> payloads (snd (reorder_pdf_pages s old_version new_version reorder_data)) v
                = payloads s v
            \<and> payloads (snd (rotate_pdf_pages s old_version new_version angles)) v
                = payloads s v
            \<and> payloads (snd (insert_pdf_pages s src_version old_version new_version ns pos)) v
                = payloads s v)"
proof -
  let ?V = "set (map version_pk (versions s))"
  have st: "stable ?V s s" using assms by (rule stable_refl)
  have "stable ?V s (snd (version_bump s doc c))"
    using stable_bump(1)[OF st, of doc c] by (cases "version_bump s doc c") simp
  then show ?thesis
    using stable_perform_destroy[OF st] stable_delete_pages[OF st] stable_reorder_pages[OF st]
      stable_rotate_pages[OF st] stable_move_to_folder[OF st] stable_move_to_document[OF st]
    by (simp add: stable_intact payload_written_only_at)
qed

theorem archived_versions_intact_witness:
  "archived_intact example_state (snd (version_bump example_state 1 (Some 2)))
   \<and> archived_intact example_state (snd (perform_destroy example_state (mk_page 1 1 1 ''cat'')))
   \<and> archived_intact example_state (snd (delete_pages example_state [1, 2]))
   \<and> archived_intact example_state
       (snd (reorder_pages get_reordered_list example_state
          [\<lparr>reorder_id = 1, old_number = 1, new_number = 3\<rparr>,
           \<lparr>reorder_id = 2, old_number = 2, new_number = 2\<rparr>,
           \<lparr>reorder_id = 3, old_number = 3, new_number = 1\<rparr>]))
   \<and> archived_intact example_state
       (snd (rotate_pages example_state [\<lparr>rotate_id = 1, angle = 90\<rparr>]))
   \<and> archived_intact example_state
       (snd (move_to_folder example_state 1
          \<lparr>folder_pages = [2, 3], folder_dst = 10, single_page = True\<rparr>))
   \<and> archived_intact example_state
       (snd (move_to_document example_state 1
          \<lparr>document_pages = [1, 2], document_dst = 2, position = 0\<rparr>))
   \<and> payloads (snd (remove_pdf_pages example_state 1 3 (pages_filter_pk example_state [1])))
        1 = payloads example_state 1
   \<and> payloads (snd (rotate_pdf_pages example_state 1 3 [(1, 90)])) 1
        = payloads example_state 1"
proof -
  have wf: "wf_state example_state" by code_simp
  note t = archived_versions_intact[OF wf, where doc = 1 and c = "Some 2"
      and deleted_page = "mk_page 1 1 1 ''cat''" and page_ids = "[1, 2]"
      and g = get_reordered_list
      and reorder_data = "[\<lparr>reorder_id = 1, old_number = 1, new_number = 3\<rparr>,
           \<lparr>reorder_id = 2, old_number = 2, new_number = 2\<rparr>,
           \<lparr>reorder_id = 3, old_number = 3, new_number = 1\<rparr>]"
      and rotate_data = "[\<lparr>rotate_id = 1, angle = 90\<rparr>]" and user = 1
      and folder_data = "\<lparr>folder_pages = [2, 3], folder_dst = 10, single_page = True\<rparr>"
      and document_data = "\<lparr>document_pages = [1, 2], document_dst = 2, position = 0\<rparr>"
      and new_version = 3 and old_version = 1
      and ps = "pages_filter_pk example_state [1]" and angles = "[(1, 90)]"
      and src_version = 2 and ns = "[]" and pos = 0]
  have ne: "(1::nat) \<noteq> 3" by simp
  from t have p: "payloads (snd (remove_pdf_pages example_state 1 3
                     (pages_filter_pk example_state [1]))) 1 = payloads example_state 1"
    "payloads (snd (rotate_pdf_pages example_state 1 3 [(1, 90)])) 1 = payloads example_state 1"
    using ne by blast+
  from t p show ?thesis by blast
qed

section \<open>Rotate\<close>

lemma text_at_all:
  assumes "length (version_pages s v) = nat n"
  shows "map (text_at s v) [1..n] = map page_text (version_pages s v)"
proof (rule nth_equalityI)
  show "length (map (text_at s v) [1..n]) = length (map page_text (version_pages s v))"
    using assms by simp
next
  fix i assume "i < length (map (text_at s v) [1..n])"
  then have i: "i < nat n" by simp
  then have "[1..n] ! i = 1 + int i" by simp
  then show "map (text_at s v) [1..n] ! i = map page_text (version_pages s v) ! i"
    using i assms by (simp add: text_at_def)
qed

lemma map_content_update:
  "i < length xs \<Longrightarrow> content y = content (xs ! i) \<Longrightarrow> map content (xs[i := y]) = map content xs"
  by (simp add: map_update list_update_same_conv)

lemma c_rem_0_iff:
  "c_rem a 90 = 0 \<longleftrightarrow> a mod 90 = 0"
  by (simp add: c_rem_def) presburger

lemma page_rotate_ok:
  assumes "- (2 ^ 31) \<le> a" "a < 2 ^ 31" "a mod 90 = 0"
  shows "\<exists>p'. page_rotate p a = Inr p' \<and> content p' = content p"
  using assms by (simp add: page_rotate_def INT_MIN_def INT_MAX_def c_rem_0_iff Let_def)

lemma rotate_loop_ok:
  "\<forall>(n, a) \<in> set pd. 1 \<le> n \<and> n \<le> int (length src)
      \<and> - (2 ^ 31) \<le> a \<and> a < 2 ^ 31 \<and> a mod 90 = 0 \<Longrightarrow>
   \<exists>src'. rotate_loop src pd = Inr src' \<and> map content src' = map content src"
proof (induction pd arbitrary: src)
  case Nil
  then show ?case by simp
next
  case (Cons x pd)
  obtain n a where x: "x = (n, a)" by (cases x)
  have na: "1 \<le> n" "n \<le> int (length src)" "- (2 ^ 31) \<le> a" "a < 2 ^ 31" "a mod 90 = 0"
    using Cons.prems x by auto
  obtain p' where p': "page_rotate (src ! nat (n - 1)) a = Inr p'"
      "content p' = content (src ! nat (n - 1))"
    using page_rotate_ok[OF na(3,4,5)] by blast
  let ?src' = "src[nat (n - 1) := p']"
  have i: "nat (n - 1) < length src" using na by simp
  have mc: "map content ?src' = map content src"
    using i p'(2) by (rule map_content_update)
  have len: "length ?src' = length src" by simp
  have "\<forall>(n, a) \<in> set pd. 1 \<le> n \<and> n \<le> int (length ?src')
          \<and> - (2 ^ 31) \<le> a \<and> a < 2 ^ 31 \<and> a mod 90 = 0"
    using Cons.prems by (simp add: len)
  then obtain src'' where r: "rotate_loop ?src' pd = Inr src''"
      "map content src'' = map content ?src'"
    using Cons.IH[of ?src'] by blast
  have "rotate_loop src (x # pd) = rotate_loop ?src' pd"
    using na x p'(1) by (simp add: pages_p_def)
  then show ?case using r mc by simp
qed

lemma annotate_page_data_set:
  "(n, a) \<in> set (annotate_page_data ps pd) \<Longrightarrow>
   \<exists>p item. p \<in> set ps \<and> item \<in> set pd \<and> n = number p \<and> a = angle item"
  by (auto simp: annotate_page_data_def)

lemma wf_state_same_tables:
  "wf_state s \<Longrightarrow> pages s' = pages s \<Longrightarrow> versions s' = versions s \<Longrightarrow> wf_state s'"
  by (simp add: wf_state_def)

text \<open>
  C8, as stated, fails. The rotate request takes any integer as an angle. At 45 degrees
  on page 1 of the example source the codec refuses the rotation, after the view has
  bumped the document: the call raises RuntimeError and the document's current version
  is a new version 3 of page_count 3 that has no payload and whose three page texts are
  empty, where the old version's are "cat", "dog", "monkey". An angle beyond 32 bits,
  also a multiple of 90, is refused with TypeError.
\<close>

theorem rotate_pages_angle_45:
  "(let r = rotate_pages example_state [\<lparr>rotate_id = 1, angle = 45\<rparr>]
    in fst r = Some RuntimeError
       \<and> map version_pk (document_versions example_state 1) = [1]
       \<and> map version_pk (document_versions (snd r) 1) = [1, 3]
       \<and> map version_pk (document_versions (snd r) 2) = [2]
       \<and> map page_count (document_versions (snd r) 1) = [3, 3]
       \<and> payloads (snd r) 3 = None
       \<and> map page_text (version_pages (snd r) 3) = [[], [], []]
       \<and> map page_text (version_pages example_state 1) = [''cat'', ''dog'', ''monkey'']
       \<and> fst (rotate_pages example_state [\<lparr>rotate_id = 1, angle = 90 * 2 ^ 31\<rparr>])
           = Some TypeError)"
  by code_simp

text \<open>
  C8, amended. For every rotate request on pages of the current version whose angles are
  multiples of 90 within the range of a 32-bit signed integer (the angles the codec
  accepts): \<open>rotate_pages\<close> raises nothing; the document's new current
  version is a new row with the page_count of the old version; its pages have the same
  numbers and, position by position, the same texts as the old version's pages, and its
  aggregate text is these texts joined by single spaces; the page map the view builds
  from the old version's pages is the identity \<open>(n, n)\<close> for \<open>n = 1..page_count\<close>;
  and the new payload lists the same page contents in the same order as the old one, so
  that at most the rotation of its pages differs.
\<close>

theorem rotate_pages_keeps_count_text_order:
  assumes wf: "wf_state s"
    and sel: "current_selection s (pages_filter_pk s (map rotate_id pages_data)) ov pdf"
    and ang: "list_all (\<lambda>item. angle item mod 90 = 0
                                \<and> - (2 ^ 31) \<le> angle item \<and> angle item < 2 ^ 31) pages_data"
  shows "case rotate_pages s pages_data of
           (e, s') \<Rightarrow>
             e = None \<and>
             (case last_version s' (version_document ov) of
                None \<Rightarrow> False
              | Some nv \<Rightarrow>
                  version_pk nv \<notin> set (map version_pk (versions s))
                  \<and> page_count nv = page_count ov
                  \<and> map number (version_pages s' (version_pk nv))
                      = map number (version_pages s (version_pk ov))
                  \<and> map page_text (version_pages s' (version_pk nv))
                      = map page_text (version_pages s (version_pk ov))
                  \<and> version_text nv = join_space (map page_text (version_pages s (version_pk ov)))
                  \<and> rotate_page_map s' (version_pk ov) = map (\<lambda>n. (n, n)) [1..page_count ov]
                  \<and> (case payloads s' (version_pk nv) of
                        None \<Rightarrow> False
                      | Some pdf' \<Rightarrow> map content pdf' = map content pdf))"
proof -
  let ?ps = "pages_filter_pk s (map rotate_id pages_data)"
  let ?ovk = "version_pk ov"
  let ?texts = "map page_text (version_pages s ?ovk)"
  have all_v: "list_all (\<lambda>p. page_version p = ?ovk) ?ps"
    and gv: "get_version s ?ovk = Some ov"
    and lv: "last_version s (version_document ov) = Some ov"
    and nums: "map number (version_pages s ?ovk) = [1..page_count ov]"
    and pl: "payloads s ?ovk = Some pdf"
    and len: "int (length pdf) = page_count ov"
    using sel by (simp_all add: current_selection_def)
  obtain fp where fp: "first ?ps = Some fp" "page_version fp = ?ovk"
    using current_selection_first[OF sel] by blast
  obtain nv s1 where bump: "version_bump s (version_document ov) None = (nv, s1)"
    by (cases "version_bump s (version_document ov) None")
  note pr = version_bump_proj[OF bump]
  have cnt: "page_count nv = page_count ov"
    using bump lv by (rule version_bump_count_None)
  have in_tab: "?ovk \<in> set (map version_pk (versions s))"
    using gv by (rule version_in_table)
  note rd = version_bump_reads[OF wf bump]
  have vp_old: "version_pages s1 ?ovk = version_pages s ?ovk" using rd(2)[OF in_tab] .
  have ne: "?ovk \<noteq> version_pk nv" using rd(3)[OF in_tab] .
  have sn: "\<forall>k \<in> set (map number ?ps). 1 \<le> k \<and> k \<le> page_count ov"
    using selection_numbers(3)[OF all_v nums] .
  have "\<forall>(n, a) \<in> set (annotate_page_data ?ps pages_data).
          1 \<le> n \<and> n \<le> int (length pdf) \<and> - (2 ^ 31) \<le> a \<and> a < 2 ^ 31 \<and> a mod 90 = 0"
  proof (clarify)
    fix n a assume "(n, a) \<in> set (annotate_page_data ?ps pages_data)"
    then obtain p item where pi: "p \<in> set ?ps" "item \<in> set pages_data" "n = number p"
        "a = angle item"
      using annotate_page_data_set by blast
    show "1 \<le> n \<and> n \<le> int (length pdf) \<and> - (2 ^ 31) \<le> a \<and> a < 2 ^ 31 \<and> a mod 90 = 0"
      using pi sn ang len by (auto simp: list_all_iff)
  qed
  then obtain pdf' where rl: "rotate_loop pdf (annotate_page_data ?ps pages_data) = Inr pdf'"
      and mc: "map content pdf' = map content pdf"
    using rotate_loop_ok by blast
  let ?s2 = "s1\<lparr>payloads := (payloads s1)(version_pk nv \<mapsto> pdf')\<rparr>"
  have rot: "rotate_pdf_pages s1 ?ovk (version_pk nv) (annotate_page_data ?ps pages_data)
               = (None, ?s2)"
    using rl pl pr(3) by (simp add: rotate_pdf_pages_def)
  have vp2_old: "version_pages ?s2 ?ovk = version_pages s ?ovk"
    using vp_old by (simp add: version_pages_def)
  have vp2_new: "version_pages ?s2 (version_pk nv)
      = placeholder_pages (fresh (map page_pk (pages s))) (version_pk nv) (version_lang nv)
          (page_count nv)"
    using rd(1) by (simp add: version_pages_def)
  have pm: "map snd (rotate_page_map ?s2 ?ovk) = [1..page_count ov]"
    using nums vp2_old by (simp add: rotate_page_map_def comp_def)
  have vlen: "length (version_pages ?s2 ?ovk) = nat (page_count ov)"
    using arg_cong[OF nums, of length] vp2_old by simp
  have c0: "collect_text_streams ?s2 ?ovk [1..page_count ov]
          = Inr (map (text_at ?s2 ?ovk) [1..page_count ov])"
    by (rule collect_text_streams_ok[where n = "page_count ov"]) (simp_all add: vp2_old nums)
  have c1: "map (text_at ?s2 ?ovk) [1..page_count ov] = ?texts"
    using text_at_all[OF vlen] by (simp only: vp2_old)
  have col: "collect_text_streams ?s2 ?ovk (map snd (rotate_page_map ?s2 ?ovk))
      = Inr ?texts"
    by (simp only: pm c0 c1)
  let ?s3 = "update_text_field ?s2 (version_pk nv) ?texts"
  have run: "rotate_pages s pages_data = (None, ?s3)"
    using fp gv bump rot col
    by (simp add: rotate_pages_def Let_def and_then_def reuse_text_field_def)
  have tl: "length ?texts = nat (page_count nv)"
    using vlen vp2_old cnt by simp
  have pg3: "pages ?s3 = map (assign_text (zip (map page_pk (version_pages ?s2 (version_pk nv)))
                                  ?texts)) (pages ?s2)"
    by (simp add: update_text_field_pages)
  have np: "map number (version_pages ?s3 (version_pk nv)) = [1..page_count nv]"
    "map page_text (version_pages ?s3 (version_pk nv)) = ?texts"
    using delete_flow_new_pages[OF pg3 vp2_new tl] by simp_all
  have zl: "map snd (zip (map page_pk (version_pages ?s2 (version_pk nv))) ?texts) = ?texts"
    by (rule map_snd_zip_eq) (use vlen vp2_old cnt in \<open>simp add: vp2_new\<close>)
  have vs3: "versions ?s3
      = map (assign_version_text (version_pk nv) (join_space ?texts)) (versions s1)"
    by (simp add: update_text_field_versions zl)
  have vs: "versions ?s3 = versions s @ [nv\<lparr>version_text := join_space ?texts\<rparr>]"
    by (rule versions_after_text[OF vs3 pr(1) pr(7)])
  have last3: "last_version ?s3 (version_document ov)
      = Some (nv\<lparr>version_text := join_space ?texts\<rparr>)"
    using last_version_append_same[OF vs] pr(8) by simp
  have newk: "version_pk nv \<notin> set (map version_pk (versions s))"
    using pr(7) fresh_notin[of "map version_pk (versions s)"] by simp
  have wf2: "wf_state ?s2"
    using wf_state_bump[OF wf bump] by (rule wf_state_same_tables) simp_all
  have vp3_old: "version_pages ?s3 ?ovk = version_pages s ?ovk"
    using version_pages_update_other[OF wf2 ne] vp2_old by simp
  have rpm: "rotate_page_map ?s3 ?ovk = map (\<lambda>n. (n, n)) [1..page_count ov]"
    unfolding rotate_page_map_def vp3_old
    using arg_cong[OF nums, of "map (\<lambda>n. (n, n))"] by (simp add: comp_def)
  have pay3: "payloads ?s3 (version_pk nv) = Some pdf'" by simp
  show ?thesis
    using run last3 newk cnt np nums rpm pay3 mc by simp
qed

theorem rotate_pages_keeps_count_text_order_witness:
  "case rotate_pages example_state [\<lparr>rotate_id = 1, angle = 90\<rparr>] of
     (e, s') \<Rightarrow>
       e = None \<and>
       (case last_version s' 1 of
          None \<Rightarrow> False
        | Some nv \<Rightarrow>
            page_count nv = 3
            \<and> map number (version_pages s' (version_pk nv)) = [1, 2, 3]
            \<and> map page_text (version_pages s' (version_pk nv)) = [''cat'', ''dog'', ''monkey'']
            \<and> version_text nv = ''cat dog monkey''
            \<and> rotate_page_map s' 1 = [(1, 1), (2, 2), (3, 3)]
            \<and> (case payloads s' (version_pk nv) of
                  None \<Rightarrow> False
                | Some pdf' \<Rightarrow> map content pdf' = [11, 12, 13]))"
proof -
  let ?ov = "\<lparr>version_pk = 1, version_document = 1, version_number = 1, page_count = 3,
              version_text = [], version_lang = ''deu''\<rparr>"
  let ?pdf = "[mk_pdf_page 11, mk_pdf_page 12, mk_pdf_page 13]"
  let ?pd = "[\<lparr>rotate_id = 1, angle = 90\<rparr>]"
  have h1: "wf_state example_state" by code_simp
  have h2: "current_selection example_state (pages_filter_pk example_state (map rotate_id ?pd))
              ?ov ?pdf"
    by code_simp
  have h3: "list_all (\<lambda>item. angle item mod 90 = 0
                         \<and> - (2 ^ 31) \<le> angle item \<and> angle item < 2 ^ 31) ?pd"
    by code_simp
  have e1: "map number (version_pages example_state (Suc 0)) = [1, 2, 3]" by code_simp
  have e2: "map page_text (version_pages example_state (Suc 0)) = [''cat'', ''dog'', ''monkey'']"
    by code_simp
  have e3: "map (\<lambda>n. (n, n)) [1..3] = [(1, 1), (2, 2), (3::int, 3::int)]" by code_simp
  have e4: "map content ?pdf = [11, 12, 13]" by code_simp
  show ?thesis
    using rotate_pages_keeps_count_text_order[OF h1 h2 h3]
    by (auto simp: e1 e2 e3 e4 mk_pdf_page_def split: prod.splits option.splits)
qed

section \<open>The views at the inputs where they depart from the specification\<close>

text \<open>
  C1, at a failing input. Moving pages 1 and 2 of the source ("cat", "dog") into the
  destination ("flower", "tree", "plant") at position 1 succeeds, the destination's new
  version has five pages and its payload has the moved pages right after the first
  page; but the page texts of the new version are "flower", "cat", "flower", "tree" and
  an empty text, not "flower", "cat", "dog", "tree", "plant": \<open>reuse_text_field_multi\<close>
  takes the inserted range as \<open>range(position + 1, pages.count() + 1)\<close> and maps the
  range after it by \<open>pos - position - pages.count()\<close>. The artifacts copied into the
  new version are the destination's own old artifacts 1 and 2, put at slots 2 and 3:
  \<open>copy_pages_data\<close> is called with the destination's old version as its source.
\<close>

theorem move_to_document_position_1_texts:
  "(let r = move_to_document example_state 1
              \<lparr>document_pages = [1, 2], document_dst = 2, position = 1\<rparr>
    in fst r = None
       \<and> map version_pk (document_versions (snd r) 2) = [2, 4]
       \<and> payloads (snd r) 4
           = Some [mk_pdf_page 21, mk_pdf_page 11, mk_pdf_page 12, mk_pdf_page 22, mk_pdf_page 23]
       \<and> map page_text (version_pages (snd r) 4) = [''flower'', ''cat'', ''flower'', ''tree'', []]
       \<and> map (\<lambda>n. artifacts (snd r) (4, n)) [1..5] = [None, Some 121, Some 122, None, None])"
  by code_simp

text \<open>
  C2, at a failing input. After page 1 of the source was rotated by 90 degrees, the page
  with primary key 1 is archived. Both delete endpoints reject it ("Deleting archived
  page is not allowed"); rotate, reorder, move-to-folder and move-to-document accept it
  and run to the end: none of them asks \<open>is_archived\<close>.
\<close>

theorem rotate_then_edit_archived_page:
  "fst (rotate_pages example_state [\<lparr>rotate_id = 1, angle = 90\<rparr>]) = None
   \<and> is_archived rotated_state (mk_page 1 1 1 ''cat'')
   \<and> fst (rotate_pages rotated_state [\<lparr>rotate_id = 1, angle = 90\<rparr>]) = None
   \<and> map version_pk (document_versions
         (snd (rotate_pages rotated_state [\<lparr>rotate_id = 1, angle = 90\<rparr>])) 1) = [1, 3, 4]
   \<and> fst (reorder_pages get_reordered_list rotated_state
         [\<lparr>reorder_id = 1, old_number = 1, new_number = 2\<rparr>,
          \<lparr>reorder_id = 2, old_number = 2, new_number = 1\<rparr>,
          \<lparr>reorder_id = 3, old_number = 3, new_number = 3\<rparr>]) = None
   \<and> fst (move_to_folder rotated_state 1
         \<lparr>folder_pages = [1], folder_dst = 10, single_page = True\<rparr>) = None
   \<and> fst (move_to_document rotated_state 1
         \<lparr>document_pages = [1], document_dst = 2, position = 0\<rparr>) = None
   \<and> fst (delete_pages rotated_state [1])
       = Some (APIBadRequest ''Deleting archived page is not allowed'')
   \<and> fst (perform_destroy rotated_state (mk_page 1 1 1 ''cat''))
       = Some (APIBadRequest ''Deleting archived page is not allowed'')"
  by code_simp

text \<open>
  C3, at a failing input. Deleting the only page of a one-page document through the
  single-page endpoint raises nothing and leaves the document with a current version of
  page_count 0, no pages and an empty payload; the multi-page endpoint rejects the same
  request ("Document version must have at least one page").
\<close>

theorem perform_destroy_last_page:
  "(let r = perform_destroy one_page_state (mk_page 1 1 1 ''only'')
    in fst r = None
       \<and> map page_count (document_versions (snd r) 1) = [1, 0]
       \<and> payloads (snd r) 2 = Some []
       \<and> version_pages (snd r) 2 = [])
   \<and> fst (delete_pages one_page_state [1])
       = Some (APIBadRequest ''Document version must have at least one page'')"
  by code_simp

section \<open>Reorder requests\<close>



lemma reuse_text_field_payloads [simp]:
  "payloads (snd (reuse_text_field s ov t pm)) = payloads s"
  by (simp add: reuse_text_field_def split: sum.splits)

lemma placeholder_text: "map page_text (placeholder_pages b v l n) = replicate (nat n) []"
  by (simp add: placeholder_pages_def comp_def map_replicate_const)





section \<open>The default position of a move to a document\<close>

lemma insert_loop_nonneg:
  "0 \<le> pos + c \<Longrightarrow> pos + c \<le> int (length d) \<Longrightarrow>
   \<forall>n \<in> set ns. 1 \<le> n \<and> n \<le> int (length src) \<Longrightarrow>
   insert_loop src d ns pos c
     = Inr (take (nat (pos + c)) d @ map (\<lambda>n. src ! nat (n - 1)) ns @ drop (nat (pos + c)) d)"
proof (induction ns arbitrary: d c)
  case Nil
  then show ?case by simp
next
  case (Cons n ns)
  let ?j = "nat (pos + c)"
  let ?x = "src ! nat (n - 1)"
  let ?d' = "take ?j d @ [?x] @ drop ?j d"
  have jl: "?j \<le> length d" using Cons.prems by simp
  have pp: "pages_p src n = Inr ?x" using Cons.prems by (simp add: pages_p_def)
  have pi: "pages_insert d (pos + c) ?x = Inr ?d'"
    using Cons.prems by (simp add: pages_insert_def Let_def)
  have ld: "length ?d' = Suc (length d)" using jl by simp
  have nj: "nat (pos + (c + 1)) = Suc ?j" using Cons.prems by simp
  have ih: "insert_loop src ?d' ns pos (c + 1)
     = Inr (take (nat (pos + (c + 1))) ?d' @ map (\<lambda>n. src ! nat (n - 1)) ns
            @ drop (nat (pos + (c + 1))) ?d')"
    using Cons.prems by (intro Cons.IH) (simp_all only: ld, simp_all)
  have tk: "take (Suc ?j) ?d' = take ?j d @ [?x]" using jl by simp
  have dr: "drop (Suc ?j) ?d' = drop ?j d" using jl by simp
  show ?case
    by (simp only: insert_loop.simps pp pi sum.case ih nj tk dr) simp
qed

lemma insert_loop_minus_one:
  assumes "ns \<noteq> []" and "d \<noteq> []"
    and "\<forall>n \<in> set ns. 1 \<le> n \<and> n \<le> int (length src)"
  shows "insert_loop src d ns (- 1) 0
     = Inr (map (\<lambda>n. src ! nat (n - 1)) (tl ns) @ butlast d
            @ [src ! nat (hd ns - 1), last d])"
proof -
  obtain n ns' where ns: "ns = n # ns'" using assms(1) by (cases ns) auto
  let ?x = "src ! nat (n - 1)"
  let ?d' = "butlast d @ [?x, last d]"
  have pp: "pages_p src n = Inr ?x" using assms(3) ns by (simp add: pages_p_def)
  have l: "0 < length d" using assms(2) by simp
  have tk: "take (length d - Suc 0) d = butlast d" by (simp add: butlast_conv_take)
  have dr: "drop (length d - Suc 0) d = [last d]"
    using assms(2)
    by (metis One_nat_def append_butlast_last_id append_eq_conv_conj length_butlast)
  have nl: "nat (int (length d) - 1) = length d - 1" using l by simp
  have pi: "pages_insert d (- 1 + 0) ?x = Inr ?d'"
    using l by (simp add: pages_insert_def Let_def nl tk dr)
  have rest: "insert_loop src ?d' ns' (- 1) (0 + 1)
     = Inr (take (nat (- 1 + (0 + 1))) ?d' @ map (\<lambda>n. src ! nat (n - 1)) ns'
            @ drop (nat (- 1 + (0 + 1))) ?d')"
    using assms(3) ns by (intro insert_loop_nonneg) simp_all
  show ?thesis
    unfolding ns by (simp only: insert_loop.simps pp pi sum.case rest) simp
qed

lemma copy_pages_data_shift:
  "ov \<noteq> nv \<Longrightarrow>
   artifacts (copy_pages_data s ov nv (map (\<lambda>p. (number p, number p + c)) ps)) (v, j)
     = (if v = nv \<and> j - c \<in> number ` set ps
        then (case artifacts s (ov, j - c) of None \<Rightarrow> artifacts s (v, j) | Some a \<Rightarrow> Some a)
        else artifacts s (v, j))"
proof (induction ps arbitrary: s)
  case Nil
  then show ?case by simp
next
  case (Cons p ps)
  let ?s' = "copy_page s (ov, number p) (nv, number p + c)"
  have src: "artifacts ?s' (ov, k) = artifacts s (ov, k)" for k
    using Cons.prems by (simp add: copy_page_def split: option.splits)
  have tgt: "artifacts ?s' (v, j)
      = (if v = nv \<and> j = number p + c
         then (case artifacts s (ov, number p) of None \<Rightarrow> artifacts s (v, j) | Some a \<Rightarrow> Some a)
         else artifacts s (v, j))"
    by (simp add: copy_page_def split: option.splits)
  have "artifacts (copy_pages_data s ov nv (map (\<lambda>p. (number p, number p + c)) (p # ps))) (v, j)
      = artifacts (copy_pages_data ?s' ov nv (map (\<lambda>p. (number p, number p + c)) ps)) (v, j)"
    by simp
  also have "\<dots> = (if v = nv \<and> j - c \<in> number ` set ps
        then (case artifacts ?s' (ov, j - c) of None \<Rightarrow> artifacts ?s' (v, j) | Some a \<Rightarrow> Some a)
        else artifacts ?s' (v, j))"
    using Cons.prems by (rule Cons.IH)
  also have "\<dots> = (if v = nv \<and> j - c \<in> number ` set (p # ps)
        then (case artifacts s (ov, j - c) of None \<Rightarrow> artifacts s (v, j) | Some a \<Rightarrow> Some a)
        else artifacts s (v, j))"
    unfolding src tgt by (auto split: option.splits)
  finally show ?case .
qed

lemma collect_loop_missing:
  "\<exists>k \<in> set ks. m k = None \<Longrightarrow> collect_loop m ks = Inl KeyError"
proof (induction ks)
  case Nil
  then show ?case by simp
next
  case (Cons k ks)
  show ?case
  proof (cases "m k")
    case None
    then show ?thesis by simp
  next
    case (Some p)
    then have "\<exists>k \<in> set ks. m k = None" using Cons.prems by auto
    then show ?thesis using Cons.IH Some by simp
  qed
qed

lemma collect_text_streams_missing:
  assumes "map number (version_pages s v) = [1..n]" and "k \<in> set ks" and "n < k"
  shows "collect_text_streams s v ks = Inl KeyError"
proof -
  let ?m = "map_of (rev (map (\<lambda>p. (number p, p)) (version_pages s v)))"
  have "fst ` set (rev (map (\<lambda>p. (number p, p)) (version_pages s v)))
          = set (map number (version_pages s v))"
    by (auto simp: image_iff)
  then have "k \<notin> fst ` set (rev (map (\<lambda>p. (number p, p)) (version_pages s v)))"
    using assms(1,3) by simp
  then have "?m k = None"
    using map_of_eq_None_iff[of "rev (map (\<lambda>p. (number p, p)) (version_pages s v))" k] by blast
  then show ?thesis
    unfolding collect_text_streams_def using assms(2) by (intro collect_loop_missing) blast
qed

lemma reuse_ocr_data_artifacts_other:
  "v \<noteq> nv \<Longrightarrow> artifacts (reuse_ocr_data s ov nv pm) (v, j) = artifacts s (v, j)"
  by (induction s ov nv pm rule: reuse_ocr_data.induct)
     (simp_all add: copy_page_def split: option.splits)

lemma delete_flow_artifacts_other:
  "v \<noteq> version_pk nv \<Longrightarrow>
   artifacts (snd (delete_flow s ov nv ps)) (v, j) = artifacts s (v, j)"
  by (simp add: delete_flow_def and_then_def remove_pdf_pages_def reuse_text_field_def Let_def
        reuse_ocr_data_artifacts_other
      split: option.splits sum.splits)

lemma version_pages_assigned_other:
  assumes pg: "pages s' = map (assign_text (zip (map page_pk (version_pages s t)) st)) (pages s)"
    and wf: "wf_state s" and ne: "v \<noteq> t"
  shows "version_pages s' v = version_pages s v"
proof -
  have "pages s' = pages (update_text_field s t st)"
    using pg by (simp only: update_text_field_pages)
  then have "version_pages s' v = version_pages (update_text_field s t st) v"
    by (rule version_pages_cong)
  then show ?thesis using version_pages_update_other[OF wf ne] by simp
qed

lemma get_document_pk: "get_document s pk u = Some d \<Longrightarrow> document_pk d = pk"
  by (auto simp: get_document_def find_Some_iff)

lemma last_version_in_table:
  assumes "last_version s d = Some v"
  shows "v \<in> set (versions s)" and "version_document v = d"
proof -
  have ne: "document_versions s d \<noteq> []" and l: "v = last (document_versions s d)"
    using assms by (auto simp: last_version_alt split: if_splits)
  then have "v \<in> set (document_versions s d)" using last_in_set by metis
  then show "v \<in> set (versions s)" and "version_document v = d"
    by (auto simp: document_versions_def)
qed

lemma map_snd_zip_shorter: "length ys \<le> length xs \<Longrightarrow> map snd (zip xs ys) = ys"
  by (simp add: map_snd_zip_take)

lemma reuse_text_field_multi_minus_one:
  assumes sn: "map number (version_pages s sv) = [1..n]"
    and rng: "\<forall>k \<in> set (map number ps). 1 \<le> k \<and> k \<le> n"
    and dn: "map number (version_pages s dv) = [1..m]"
    and m0: "0 \<le> m"
    and tot: "int (length (version_pages s nv)) = m + int (length ps)"
  shows "reuse_text_field_multi s sv dv nv (- 1) ps = (Some KeyError, s)"
proof -
  let ?k = "int (length ps)"
  have z: "map snd (zip [- 1 + 1..?k] (map number ps)) = map number ps"
    by (rule map_snd_zip_shorter) simp
  have c2: "collect_text_streams s sv (map number ps) = Inr (map (text_at s sv) (map number ps))"
    using sn rng by (rule collect_text_streams_ok)
  have mem: "m + 1 \<in> set (map snd (map (\<lambda>pos. (pos, pos - (- 1) - ?k)) [- 1 + 1 + ?k..m + ?k]))"
  proof -
    have "m + ?k \<in> set [- 1 + 1 + ?k..m + ?k]" using m0 by simp
    then have "(m + ?k) - (- 1) - ?k \<in> (\<lambda>pos. pos - (- 1) - ?k) ` set [- 1 + 1 + ?k..m + ?k]"
      by (rule imageI)
    then show ?thesis by (simp add: comp_def image_iff)
  qed
  have c3: "collect_text_streams s dv
              (map snd (map (\<lambda>pos. (pos, pos - (- 1) - ?k)) [- 1 + 1 + ?k..m + ?k]))
            = Inl KeyError"
    using dn mem by (rule collect_text_streams_missing) simp
  show ?thesis
    unfolding reuse_text_field_multi_def Let_def tot
    using z c2 c3 by simp
qed

lemma last_version_snoc:
  "versions s1 = vs @ [nv] \<Longrightarrow> last_version s1 (version_document nv) = Some nv"
  by (simp add: last_version_alt document_versions_def)

lemma stable_reads:
  assumes "stable V s0 s" and "v \<in> V"
  shows "payloads s v = payloads s0 v" and "version_pages s v = version_pages s0 v"
  using assms unfolding stable_def by blast+

lemma move_to_document_at_minus_one:
  assumes wf: "wf_state s"
    and sel: "current_selection s (pages_filter_pk s ids) ov pdf"
    and doc: "get_document s dst user = Some d"
    and dlast: "last_version s dst = Some dov"
    and dnums: "map number (version_pages s (version_pk dov)) = [1..int (length dpdf)]"
    and dpl: "payloads s (version_pk dov) = Some dpdf"
    and dne: "dpdf \<noteq> []"
  shows "\<exists>s' nv. move_to_document s user
                   \<lparr>document_pages = ids, document_dst = dst, position = - 1\<rparr>
                 = (Some KeyError, s')
           \<and> last_version s' dst = Some nv
           \<and> version_pk nv \<notin> set (map version_pk (versions s))
           \<and> page_count nv = int (length dpdf) + int (length (pages_filter_pk s ids))
           \<and> payloads s' (version_pk nv)
               = Some (map (\<lambda>p. pdf ! nat (number p - 1)) (tl (pages_filter_pk s ids))
                       @ butlast dpdf
                       @ [pdf ! nat (number (hd (pages_filter_pk s ids)) - 1), last dpdf])
           \<and> map page_text (version_pages s' (version_pk nv))
               = replicate (length dpdf + length (pages_filter_pk s ids)) []
           \<and> (\<forall>j. artifacts s' (version_pk nv, j)
                  = (if j + 1 \<in> number ` set (pages_filter_pk s ids)
                     then (case artifacts s (version_pk dov, j + 1) of
                             None \<Rightarrow> artifacts s (version_pk nv, j)
                           | Some a \<Rightarrow> Some a)
                     else artifacts s (version_pk nv, j)))"
proof -
  let ?ps = "pages_filter_pk s ids"
  let ?data = "\<lparr>document_pages = ids, document_dst = dst, position = - 1\<rparr>"
  let ?ovk = "version_pk ov"
  let ?dk = "version_pk dov"
  let ?k = "int (length ?ps)"
  let ?m = "int (length dpdf)"
  let ?V = "set (map version_pk (versions s))"
  have psne: "?ps \<noteq> []"
    and all_v: "list_all (\<lambda>p. page_version p = ?ovk) ?ps"
    and gv: "get_version s ?ovk = Some ov"
    and nums: "map number (version_pages s ?ovk) = [1..page_count ov]"
    and pl: "payloads s ?ovk = Some pdf"
    and len: "int (length pdf) = page_count ov"
    using sel by (simp_all add: current_selection_def)
  obtain fp where fp: "first ?ps = Some fp" "page_version fp = ?ovk"
    using current_selection_first[OF sel] by blast
  have dpk: "document_pk d = dst" using doc by (rule get_document_pk)
  have in_tab: "?ovk \<in> ?V" using gv by (rule version_in_table)
  have din: "?dk \<in> ?V" using last_version_in_table(1)[OF dlast] by simp
  have st0: "stable ?V s s" using wf by (rule stable_refl)
  obtain nv1 s1 where b1:
    "version_bump s (version_document ov)
       (Some (int (length (version_pages s ?ovk)) - ?k)) = (nv1, s1)"
    by (cases "version_bump s (version_document ov)
                 (Some (int (length (version_pages s ?ovk)) - ?k))")
  note p1 = version_bump_proj[OF b1]
  have st1: "stable ?V s s1" and n1: "version_pk nv1 \<notin> ?V"
    using stable_bump[OF st0 b1] by simp_all
  have wf1: "wf_state s1" using wf b1 by (rule wf_state_bump)
  have vp1d: "version_pages s1 ?dk = version_pages s ?dk"
    using st1 din by (rule stable_reads(2))
  obtain nv2 s2 where b2:
    "version_bump s1 dst (Some (int (length (version_pages s1 ?dk)) + ?k)) = (nv2, s2)"
    by (cases "version_bump s1 dst (Some (int (length (version_pages s1 ?dk)) + ?k))")
  note p2 = version_bump_proj[OF b2]
  have st2: "stable ?V s s2" and n2: "version_pk nv2 \<notin> ?V"
    using stable_bump[OF st1 b2] by simp_all
  have wf2: "wf_state s2" using wf1 b2 by (rule wf_state_bump)
  have dlen: "length (version_pages s ?dk) = length dpdf"
    using arg_cong[OF dnums, of length] by simp
  have cnt2: "page_count nv2 = ?m + ?k"
    using version_bump_count_Some[OF b2] vp1d dlen by simp
  have ne12: "version_pk nv2 \<noteq> version_pk nv1"
  proof -
    have "version_pk nv1 \<in> set (map version_pk (versions s1))" using p1(1) by simp
    then show ?thesis using fresh_notin[of "map version_pk (versions s1)"] p2(7) by auto
  qed
  have ph2: "version_pages s2 (version_pk nv2)
      = placeholder_pages (fresh (map page_pk (pages s1))) (version_pk nv2) (version_lang nv2)
          (page_count nv2)"
    using version_bump_reads(1)[OF wf1 b2] .
  have r2: "payloads s2 ?ovk = Some pdf" "version_pages s2 ?ovk = version_pages s ?ovk"
    using stable_reads[OF st2 in_tab] pl by simp_all
  have srt: "sorted (map number ?ps)" and dis: "distinct (map number ?ps)"
    and rng: "\<forall>k \<in> set (map number ?ps). 1 \<le> k \<and> k \<le> page_count ov"
    using selection_numbers[OF all_v nums] by simp_all
  have nums2: "map number (version_pages s2 ?ovk) = [1..page_count ov]"
    using nums r2(2) by simp
  obtain s3 st where df: "delete_flow s2 ov nv1 ?ps = (None, s3)"
    and pg3: "pages s3 = map (assign_text (zip (map page_pk (version_pages s2 (version_pk nv1)))
                                st)) (pages s2)"
    and vs3: "\<exists>t. versions s3 = map (assign_version_text (version_pk nv1) t) (versions s2)"
    using delete_flow_ok[OF r2(1) len nums2 srt dis rng, of nv1] by blast
  have st3: "stable ?V s s3"
    using stable_delete_flow[OF st2 n1, of ov ?ps] df by simp
  have vp3n: "version_pages s3 (version_pk nv2) = version_pages s2 (version_pk nv2)"
    using pg3 wf2 ne12 by (rule version_pages_assigned_other)
  obtain vs where vs: "versions s3 = vs @ [nv2]"
  proof -
    obtain t where "versions s3 = map (assign_version_text (version_pk nv1) t) (versions s2)"
      using vs3 by blast
    then have "versions s3 = map (assign_version_text (version_pk nv1) t) (versions s1) @ [nv2]"
      using p2(1) ne12 by (simp add: assign_version_text_def)
    then show ?thesis using that by blast
  qed
  have art3: "artifacts s3 (v, j) = artifacts s (v, j)" if "v \<noteq> version_pk nv1" for v j
    using delete_flow_artifacts_other[OF that, of s2 ov ?ps j] df p1(4) p2(4) by simp
  have r3: "payloads s3 ?ovk = Some pdf" "payloads s3 ?dk = Some dpdf"
    "version_pages s3 ?ovk = version_pages s ?ovk" "version_pages s3 ?dk = version_pages s ?dk"
    using stable_reads[OF st3 in_tab] stable_reads[OF st3 din] pl dpl by simp_all
  let ?R = "map (\<lambda>n. pdf ! nat (n - 1)) (tl (map number ?ps)) @ butlast dpdf
            @ [pdf ! nat (hd (map number ?ps) - 1), last dpdf]"
  have il: "insert_loop pdf dpdf (map number ?ps) (- 1) 0 = Inr ?R"
    using psne dne rng len by (intro insert_loop_minus_one) simp_all
  let ?s4 = "s3\<lparr>payloads := (payloads s3)(version_pk nv2 \<mapsto> ?R)\<rparr>"
  have ins: "insert_pdf_pages s3 ?ovk ?dk (version_pk nv2) (map number ?ps) (- 1) = (None, ?s4)"
    using il r3(1,2) by (simp add: insert_pdf_pages_def)
  let ?s5 = "copy_pages_data ?s4 ?dk (version_pk nv2) (map (\<lambda>p. (number p, number p + (- 1))) ?ps)"
  have pg5: "pages ?s5 = pages s3" by simp
  have vp5o: "map number (version_pages ?s5 ?ovk) = [1..page_count ov]"
    using version_pages_cong[OF pg5, of ?ovk] r3(3) nums by simp
  have vp5d: "map number (version_pages ?s5 ?dk) = [1..?m]"
    using version_pages_cong[OF pg5, of ?dk] r3(4) dnums by simp
  have vp5n: "version_pages ?s5 (version_pk nv2)
      = placeholder_pages (fresh (map page_pk (pages s1))) (version_pk nv2) (version_lang nv2)
          (page_count nv2)"
    using version_pages_cong[OF pg5, of "version_pk nv2"] vp3n ph2 by simp
  have tot: "int (length (version_pages ?s5 (version_pk nv2))) = ?m + ?k"
    by (simp only: vp5n placeholder_length cnt2)
  have rt: "reuse_text_field_multi ?s5 ?ovk ?dk (version_pk nv2) (- 1) ?ps = (Some KeyError, ?s5)"
    using vp5o rng vp5d _ tot by (rule reuse_text_field_multi_minus_one) simp
  have run: "move_to_document s user ?data = (Some KeyError, ?s5)"
    using doc fp gv dlast b1 b2 df ins rt
    by (simp add: move_to_document_def Let_def and_then_def dpk)
  have last5: "last_version ?s5 dst = Some nv2"
  proof -
    have "versions ?s5 = vs @ [nv2]" using vs by simp
    then have "last_version ?s5 (version_document nv2) = Some nv2"
      by (rule last_version_snoc)
    then show ?thesis by (simp only: p2(8))
  qed
  have pay5: "payloads ?s5 (version_pk nv2)
      = Some (map (\<lambda>p. pdf ! nat (number p - 1)) (tl ?ps) @ butlast dpdf
              @ [pdf ! nat (number (hd ?ps) - 1), last dpdf])"
    using psne by (simp add: map_tl hd_map comp_def)
  have tx5: "map page_text (version_pages ?s5 (version_pk nv2))
      = replicate (length dpdf + length ?ps) []"
    by (simp only: vp5n placeholder_text cnt2) (simp add: nat_add_distrib)
  have ned: "?dk \<noteq> version_pk nv2" using din n2 by auto
  have ne1d: "?dk \<noteq> version_pk nv1" using din n1 by auto
  have art5: "artifacts ?s5 (version_pk nv2, j)
      = (if j + 1 \<in> number ` set ?ps
         then (case artifacts s (?dk, j + 1) of
                 None \<Rightarrow> artifacts s (version_pk nv2, j)
               | Some a \<Rightarrow> Some a)
         else artifacts s (version_pk nv2, j))" for j
    using copy_pages_data_shift[OF ned, of ?s4 "- 1" ?ps "version_pk nv2" j]
      art3[OF ne12] art3[OF ne1d]
    by (simp split: option.splits)
  show ?thesis
    using run last5 n2 cnt2 pay5 tx5 art5 by blast
qed

text \<open>
  C10. A move-to-document request that carries \<open>pages\<close> and \<open>dst\<close> and omits
  \<open>position\<close> is valid: the serializer's data has position -1, the answer is not
  400, and the view runs \<open>move_to_document\<close> on that data. What the flow then does
  with -1, for a selection of pages of a current version (payload \<open>pdf\<close>) and a
  destination whose current version has its pages numbered from 1 and a non-empty
  payload \<open>dpdf\<close>: the binary insert puts the first moved page at index -1, which the
  codec counts from the end (before the destination's last page), and the following
  ones at the indices 0, 1, ... (at the front), so that the new payload is the moved
  pages but the first, the destination's pages but the last, the first moved page and
  the destination's last page, not the destination's pages followed by the moved ones;
  the artifact copy writes, for each moved page number n, the destination's old
  artifact at n (if there is one) into slot n - 1 of the new version and leaves every
  other slot as it was; and the text replication, whose range after the inserted pages
  then asks the destination's old version for a page one beyond its last, raises
  KeyError. The call ends in that exception, after the destination's new current
  version and its payload were written, and the pages of that version keep their empty
  texts.
\<close>

theorem post_move_to_document_default_position:
  assumes rp: "request_pages req = Some ids"
    and rdst: "request_dst req = Some dst"
    and rpos: "request_position req = None"
  shows "PagesMoveToDocumentSerializer req
           = Some \<lparr>document_pages = ids, document_dst = dst, position = - 1\<rparr>
         \<and> fst (post_move_to_document s user req) \<noteq> HTTP_400_BAD_REQUEST
         \<and> post_move_to_document s user req
             = (case move_to_document s user
                       \<lparr>document_pages = ids, document_dst = dst, position = - 1\<rparr> of
                  (None, s') \<Rightarrow> (HTTP_204_NO_CONTENT, s')
                | (Some e, s') \<Rightarrow> (Raised e, s'))
         \<and> (wf_state s
              \<and> current_selection s (pages_filter_pk s ids) ov pdf
              \<and> get_document s dst user = Some d
              \<and> last_version s dst = Some dov
              \<and> map number (version_pages s (version_pk dov)) = [1..int (length dpdf)]
              \<and> payloads s (version_pk dov) = Some dpdf
              \<and> dpdf \<noteq> []
            \<longrightarrow> (case post_move_to_document s user req of
                   (r, s') \<Rightarrow>
                     r = Raised KeyError
                     \<and> (case last_version s' dst of
                           None \<Rightarrow> False
                         | Some nv \<Rightarrow>
                             version_pk nv \<notin> set (map version_pk (versions s))
                             \<and> page_count nv
                                 = int (length dpdf) + int (length (pages_filter_pk s ids))
                             \<and> payloads s' (version_pk nv)
                                 = Some (map (\<lambda>p. pdf ! nat (number p - 1))
                                           (tl (pages_filter_pk s ids))
                                         @ butlast dpdf
                                         @ [pdf ! nat (number (hd (pages_filter_pk s ids)) - 1),
                                            last dpdf])
                             \<and> map page_text (version_pages s' (version_pk nv))
                                 = replicate (length dpdf + length (pages_filter_pk s ids)) []
                             \<and> (\<forall>j. artifacts s' (version_pk nv, j)
                                    = (if j + 1 \<in> number ` set (pages_filter_pk s ids)
                                       then (case artifacts s (version_pk dov, j + 1) of
                                               None \<Rightarrow> artifacts s (version_pk nv, j)
                                             | Some a \<Rightarrow> Some a)
                                       else artifacts s (version_pk nv, j))))))"
proof -
  let ?data = "\<lparr>document_pages = ids, document_dst = dst, position = - 1\<rparr>"
  have ser: "PagesMoveToDocumentSerializer req = Some ?data"
    using assms by (simp add: PagesMoveToDocumentSerializer_def)
  have post: "post_move_to_document s user req
             = (case move_to_document s user ?data of
                  (None, s') \<Rightarrow> (HTTP_204_NO_CONTENT, s')
                | (Some e, s') \<Rightarrow> (Raised e, s'))"
    by (simp add: post_move_to_document_def ser)
  have not400: "fst (post_move_to_document s user req) \<noteq> HTTP_400_BAD_REQUEST"
    unfolding post by (simp split: prod.splits option.splits)
  have flow: "case post_move_to_document s user req of
                   (r, s') \<Rightarrow>
                     r = Raised KeyError
                     \<and> (case last_version s' dst of
                           None \<Rightarrow> False
                         | Some nv \<Rightarrow>
                             version_pk nv \<notin> set (map version_pk (versions s))
                             \<and> page_count nv
                                 = int (length dpdf) + int (length (pages_filter_pk s ids))
                             \<and> payloads s' (version_pk nv)
                                 = Some (map (\<lambda>p. pdf ! nat (number p - 1))
                                           (tl (pages_filter_pk s ids))
                                         @ butlast dpdf
                                         @ [pdf ! nat (number (hd (pages_filter_pk s ids)) - 1),
                                            last dpdf])
                             \<and> map page_text (version_pages s' (version_pk nv))
                                 = replicate (length dpdf + length (pages_filter_pk s ids)) []
                             \<and> (\<forall>j. artifacts s' (version_pk nv, j)
                                    = (if j + 1 \<in> number ` set (pages_filter_pk s ids)
                                       then (case artifacts s (version_pk dov, j + 1) of
                                               None \<Rightarrow> artifacts s (version_pk nv, j)
                                             | Some a \<Rightarrow> Some a)
                                       else artifacts s (version_pk nv, j))))"
    if h: "wf_state s" "current_selection s (pages_filter_pk s ids) ov pdf"
      "get_document s dst user = Some d" "last_version s dst = Some dov"
      "map number (version_pages s (version_pk dov)) = [1..int (length dpdf)]"
      "payloads s (version_pk dov) = Some dpdf" "dpdf \<noteq> []"
  proof -
    obtain s' nv where r: "move_to_document s user ?data = (Some KeyError, s')"
      and f: "last_version s' dst = Some nv"
        "version_pk nv \<notin> set (map version_pk (versions s))"
        "page_count nv = int (length dpdf) + int (length (pages_filter_pk s ids))"
        "payloads s' (version_pk nv)
               = Some (map (\<lambda>p. pdf ! nat (number p - 1)) (tl (pages_filter_pk s ids))
                       @ butlast dpdf
                       @ [pdf ! nat (number (hd (pages_filter_pk s ids)) - 1), last dpdf])"
        "map page_text (version_pages s' (version_pk nv))
               = replicate (length dpdf + length (pages_filter_pk s ids)) []"
        "\<forall>j. artifacts s' (version_pk nv, j)
                  = (if j + 1 \<in> number ` set (pages_filter_pk s ids)
                     then (case artifacts s (version_pk dov, j + 1) of
                             None \<Rightarrow> artifacts s (version_pk nv, j)
                           | Some a \<Rightarrow> Some a)
                     else artifacts s (version_pk nv, j))"
      using move_to_document_at_minus_one[OF h] by blast
    have p: "post_move_to_document s user req = (Raised KeyError, s')"
      unfolding post r by simp
    show ?thesis unfolding p using f by simp
  qed
  show ?thesis
  proof (intro conjI impI, goal_cases)
    case 1
    show ?case by (rule ser)
  next
    case 2
    show ?case by (rule not400)
  next
    case 3
    show ?case by (rule post)
  next
    case 4
    then show ?case by (elim conjE) (rule flow; assumption)
  qed
qed

theorem post_move_to_document_default_position_witness:
  "(let req = \<lparr>request_pages = Some [1, 2], request_dst = Some 2, request_position = None\<rparr>;
        r = post_move_to_document example_state 1 req
    in PagesMoveToDocumentSerializer req
         = Some \<lparr>document_pages = [1, 2], document_dst = 2, position = - 1\<rparr>
       \<and> fst r = Raised KeyError
       \<and> map version_pk (document_versions (snd r) 2) = [2, 4]
       \<and> payloads (snd r) 4
           = Some [mk_pdf_page 12, mk_pdf_page 21, mk_pdf_page 22, mk_pdf_page 11, mk_pdf_page 23]
       \<and> payloads (snd r) 4
           \<noteq> Some [mk_pdf_page 21, mk_pdf_page 22, mk_pdf_page 23, mk_pdf_page 11, mk_pdf_page 12]
       \<and> map page_text (version_pages (snd r) 4) = [[], [], [], [], []]
       \<and> map (\<lambda>j. artifacts (snd r) (4, j)) [0, 1, 2, 3, 4]
           = [Some 121, Some 122, None, None, None])"
proof -
  let ?req = "\<lparr>request_pages = Some [1, 2], request_dst = Some 2, request_position = None\<rparr>"
  let ?ov = "\<lparr>version_pk = 1, version_document = 1, version_number = 1, page_count = 3,
              version_text = [], version_lang = ''deu''\<rparr>"
  let ?dov = "\<lparr>version_pk = 2, version_document = 2, version_number = 1, page_count = 3,
              version_text = [], version_lang = ''deu''\<rparr>"
  let ?nv = "\<lparr>version_pk = 4, version_document = 2, version_number = 2, page_count = 5,
              version_text = [], version_lang = ''deu''\<rparr>"
  let ?d = "\<lparr>document_pk = 2, title = ''destination.pdf'', document_lang = ''deu'',
             document_user = 1, parent = 10, ocr_status = []\<rparr>"
  let ?pdf = "[mk_pdf_page 11, mk_pdf_page 12, mk_pdf_page 13]"
  let ?dpdf = "[mk_pdf_page 21, mk_pdf_page 22, mk_pdf_page 23]"
  let ?ps = "pages_filter_pk example_state [1, 2]"
  let ?r = "post_move_to_document example_state 1 ?req"
  have q: "request_pages ?req = Some [1, 2]" "request_dst ?req = Some 2"
    "request_position ?req = None"
    by simp_all
  have h: "wf_state example_state
      \<and> current_selection example_state ?ps ?ov ?pdf
      \<and> get_document example_state 2 1 = Some ?d
      \<and> last_version example_state 2 = Some ?dov
      \<and> map number (version_pages example_state (version_pk ?dov)) = [1..int (length ?dpdf)]
      \<and> payloads example_state (version_pk ?dov) = Some ?dpdf
      \<and> ?dpdf \<noteq> []"
    by code_simp
  note t = post_move_to_document_default_position
             [OF q, of example_state 1 ?ov ?pdf ?d ?dov ?dpdf]
  have ser: "PagesMoveToDocumentSerializer ?req
         = Some \<lparr>document_pages = [1, 2], document_dst = 2, position = - 1\<rparr>"
    using t by (rule conjunct1)
  have flow: "case ?r of
      (r, s') \<Rightarrow>
        r = Raised KeyError
        \<and> (case last_version s' 2 of
              None \<Rightarrow> False
            | Some nv \<Rightarrow>
                version_pk nv \<notin> set (map version_pk (versions example_state))
                \<and> page_count nv = int (length ?dpdf) + int (length ?ps)
                \<and> payloads s' (version_pk nv)
                    = Some (map (\<lambda>p. ?pdf ! nat (number p - 1)) (tl ?ps)
                            @ butlast ?dpdf
                            @ [?pdf ! nat (number (hd ?ps) - 1), last ?dpdf])
                \<and> map page_text (version_pages s' (version_pk nv))
                    = replicate (length ?dpdf + length ?ps) []
                \<and> (\<forall>j. artifacts s' (version_pk nv, j)
                       = (if j + 1 \<in> number ` set ?ps
                          then (case artifacts example_state (version_pk ?dov, j + 1) of
                                  None \<Rightarrow> artifacts example_state (version_pk nv, j)
                                | Some a \<Rightarrow> Some a)
                          else artifacts example_state (version_pk nv, j))))"
    using t[THEN conjunct2, THEN conjunct2, THEN conjunct2] h by (rule mp)
  obtain r s' where rs: "?r = (r, s')" by (cases ?r)
  have lv: "last_version (snd ?r) 2 = Some ?nv" by code_simp
  have dv: "map version_pk (document_versions (snd ?r) 2) = [2, 4]" by code_simp
  have lv': "last_version s' 2 = Some ?nv" using lv rs by simp
  have e1: "map (\<lambda>p. ?pdf ! nat (number p - 1)) (tl ?ps) @ butlast ?dpdf
              @ [?pdf ! nat (number (hd ?ps) - 1), last ?dpdf]
            = [mk_pdf_page 12, mk_pdf_page 21, mk_pdf_page 22, mk_pdf_page 11, mk_pdf_page 23]"
    by code_simp
  have e2: "replicate (length ?dpdf + length ?ps) [] = [[], [], [], [], []::string]"
    by code_simp
  have e3: "map (\<lambda>j. if j + 1 \<in> number ` set ?ps
                     then (case artifacts example_state (version_pk ?dov, j + 1) of
                             None \<Rightarrow> artifacts example_state (version_pk ?nv, j)
                           | Some a \<Rightarrow> Some a)
                     else artifacts example_state (version_pk ?nv, j)) [0, 1, 2, 3, 4]
            = [Some 121, Some 122, None, None, None]"
    by code_simp
  have ne: "[mk_pdf_page 12, mk_pdf_page 21, mk_pdf_page 22, mk_pdf_page 11, mk_pdf_page 23]
      \<noteq> [mk_pdf_page 21, mk_pdf_page 22, mk_pdf_page 23, mk_pdf_page 11, mk_pdf_page 12]"
    by code_simp
  have f: "r = Raised KeyError"
    "payloads s' (version_pk ?nv)
       = Some (map (\<lambda>p. ?pdf ! nat (number p - 1)) (tl ?ps) @ butlast ?dpdf
               @ [?pdf ! nat (number (hd ?ps) - 1), last ?dpdf])"
    "map page_text (version_pages s' (version_pk ?nv)) = replicate (length ?dpdf + length ?ps) []"
    "\<And>j. artifacts s' (version_pk ?nv, j)
        = (if j + 1 \<in> number ` set ?ps
           then (case artifacts example_state (version_pk ?dov, j + 1) of
                   None \<Rightarrow> artifacts example_state (version_pk ?nv, j)
                 | Some a \<Rightarrow> Some a)
           else artifacts example_state (version_pk ?nv, j))"
    using flow unfolding rs prod.case lv' option.case by blast+
  have k: "version_pk ?nv = 4" by simp
  have a: "map (\<lambda>j. artifacts s' (4, j)) [0, 1, 2, 3, 4]
             = [Some 121, Some 122, None, None, None]"
    by (simp only: f(4)[unfolded k] e3[unfolded k])
  have p: "payloads s' 4
      = Some [mk_pdf_page 12, mk_pdf_page 21, mk_pdf_page 22, mk_pdf_page 11, mk_pdf_page 23]"
    using f(2) unfolding e1 k .
  have x: "map page_text (version_pages s' 4) = [[], [], [], [], []]"
    using f(3) unfolding e2 k .
  have dv': "map version_pk (document_versions s' 2) = [2, 4]" using dv rs by simp
  show ?thesis
    unfolding Let_def rs fst_conv snd_conv
    using ser f(1) dv' p x a ne by simp
qed

end
